theory Spec2Isabelle
  imports Complex_Main
begin

section \<open>Text\<close>

text \<open>
  A Python \<open>str\<close> is a sequence of Unicode code points, so text is a list of code
  points and \<open>length\<close> counts what \<open>len\<close> counts.  \<open>str\<close> reads an ASCII literal.
  The classification of characters follows Python on the ASCII range: \<open>is_digit\<close> is
  \<open>\d\<close> there, \<open>lower_char\<close> is \<open>lower()\<close> there, and matching that ignores case
  compares the lower-cased characters.  \<open>is_space\<close> is \<open>\s\<close> and \<open>isspace()\<close> on all
  of Unicode.  Digits and cased letters beyond ASCII are not classified.
\<close>

type_synonym pystr = "nat list"

definition str :: "string \<Rightarrow> pystr" where
  "str s = map of_char s"

definition RUPEE :: nat where "RUPEE = 8377"
definition EURO :: nat where "EURO = 8364"
definition POUND :: nat where "POUND = 163"

definition is_digit :: "nat \<Rightarrow> bool" where
  "is_digit c = (48 \<le> c \<and> c \<le> 57)"

definition is_space :: "nat \<Rightarrow> bool" where
  "is_space c = ((9 \<le> c \<and> c \<le> 13) \<or> (28 \<le> c \<and> c \<le> 32) \<or> c = 133 \<or> c = 160
     \<or> c = 5760 \<or> (8192 \<le> c \<and> c \<le> 8202) \<or> c = 8232 \<or> c = 8233 \<or> c = 8239
     \<or> c = 8287 \<or> c = 12288)"

definition lower_char :: "nat \<Rightarrow> nat" where
  "lower_char c = (if 65 \<le> c \<and> c \<le> 90 then c + 32 else c)"

definition lower :: "pystr \<Rightarrow> pystr" where
  "lower s = map lower_char s"

text \<open>\<open>sub in s\<close>: \<open>sub\<close> occurs in \<open>s\<close> as a contiguous run.\<close>

fun starts_with :: "pystr \<Rightarrow> pystr \<Rightarrow> bool" where
  "starts_with [] s = True"
| "starts_with (p # ps) [] = False"
| "starts_with (p # ps) (c # cs) = (p = c \<and> starts_with ps cs)"

fun contains :: "pystr \<Rightarrow> pystr \<Rightarrow> bool" where
  "contains sub [] = (sub = [])"
| "contains sub (c # cs) = (starts_with sub (c # cs) \<or> contains sub cs)"

text \<open>\<open>s.replace(a, b)\<close> for single characters \<open>a\<close>, \<open>b\<close>, and \<open>s.replace(a, '')\<close>.\<close>

definition replace_char :: "nat \<Rightarrow> nat \<Rightarrow> pystr \<Rightarrow> pystr" where
  "replace_char a b s = map (\<lambda>c. if c = a then b else c) s"

definition remove_char :: "nat \<Rightarrow> pystr \<Rightarrow> pystr" where
  "remove_char a s = filter (\<lambda>c. c \<noteq> a) s"

definition strip :: "pystr \<Rightarrow> pystr" where
  "strip s = rev (dropWhile is_space (rev (dropWhile is_space s)))"

text \<open>\<open>s.split('\n')\<close>: one more piece than there are newlines.\<close>

fun split_lines :: "pystr \<Rightarrow> pystr list" where
  "split_lines [] = [[]]"
| "split_lines (c # cs) =
     (if c = 10 then [] # split_lines cs
      else (case split_lines cs of l # ls \<Rightarrow> (c # l) # ls | [] \<Rightarrow> [[c]]))"

text \<open>\<open>s.count('\n')\<close>.\<close>

definition count_newlines :: "pystr \<Rightarrow> nat" where
  "count_newlines s = length (filter (\<lambda>c. c = 10) s)"

text \<open>The decimal digits of a natural number, as an f-string prints an \<open>int\<close>.\<close>

fun show_nat :: "nat \<Rightarrow> pystr" where
  "show_nat n = (if n < 10 then [48 + n] else show_nat (n div 10) @ [48 + n mod 10])"

declare show_nat.simps [simp del]

section \<open>Regular expressions\<close>

text \<open>
  The fragment of Python's \<open>re\<close> the parser uses: literals, character sets with
  \<open>\d\<close> and \<open>\s\<close>, sequence, alternation, the greedy quantifiers \<open>?\<close>, \<open>*\<close>, \<open>+\<close>,
  \<open>{m,n}\<close>, and the capturing group number 1.  A matcher state is the rest of the
  subject and the text captured by group 1, if any.  \<open>rmatch\<close> lists the states in
  which a match of the expression can end, in the order in which the backtracking
  engine tries them, so the head of the list is the match the engine reports.
  An iteration of \<open>*\<close> or \<open>+\<close> that consumes nothing ends the repetition.
\<close>

datatype citem = IChar nat | IDigit | ISpace

datatype regex =
    Eps
  | Chr nat
  | CSet bool "citem list"
  | Cat regex regex
  | Alt regex regex
  | Opt regex
  | Star regex
  | Plus regex
  | Times nat nat regex
  | Grp regex

type_synonym mstate = "pystr \<times> pystr option"

definition chr_eq :: "bool \<Rightarrow> nat \<Rightarrow> nat \<Rightarrow> bool" where
  "chr_eq ic p c = (if ic then lower_char p = lower_char c else p = c)"

fun item_matches :: "bool \<Rightarrow> nat \<Rightarrow> citem \<Rightarrow> bool" where
  "item_matches ic c (IChar p) = chr_eq ic p c"
| "item_matches ic c IDigit = is_digit c"
| "item_matches ic c ISpace = is_space c"

fun star_iter :: "(mstate \<Rightarrow> mstate list) \<Rightarrow> nat \<Rightarrow> mstate \<Rightarrow> mstate list" where
  "star_iter f 0 st = [st]"
| "star_iter f (Suc n) st =
     concat (map (star_iter f n)
       (filter (\<lambda>st'. length (fst st') < length (fst st)) (f st))) @ [st]"

fun times_iter :: "(mstate \<Rightarrow> mstate list) \<Rightarrow> nat \<Rightarrow> nat \<Rightarrow> mstate \<Rightarrow> mstate list" where
  "times_iter f mn 0 st = (if mn = 0 then [st] else [])"
| "times_iter f mn (Suc k) st =
     concat (map (times_iter f (mn - 1) k) (f st)) @ (if mn = 0 then [st] else [])"

primrec rmatch :: "regex \<Rightarrow> bool \<Rightarrow> mstate \<Rightarrow> mstate list" where
  "rmatch Eps ic st = [st]"
| "rmatch (Chr p) ic st =
     (case fst st of [] \<Rightarrow> []
      | c # cs \<Rightarrow> if chr_eq ic p c then [(cs, snd st)] else [])"
| "rmatch (CSet neg items) ic st =
     (case fst st of [] \<Rightarrow> []
      | c # cs \<Rightarrow> if list_ex (item_matches ic c) items \<noteq> neg then [(cs, snd st)] else [])"
| "rmatch (Cat r1 r2) ic st = concat (map (rmatch r2 ic) (rmatch r1 ic st))"
| "rmatch (Alt r1 r2) ic st = rmatch r1 ic st @ rmatch r2 ic st"
| "rmatch (Opt r) ic st = rmatch r ic st @ [st]"
| "rmatch (Star r) ic st = star_iter (rmatch r ic) (length (fst st)) st"
| "rmatch (Plus r) ic st =
     concat (map (\<lambda>st'. star_iter (rmatch r ic) (length (fst st')) st') (rmatch r ic st))"
| "rmatch (Times mn mx r) ic st = times_iter (rmatch r ic) mn mx st"
| "rmatch (Grp r) ic st =
     map (\<lambda>st'. (fst st', Some (take (length (fst st) - length (fst st')) (fst st))))
       (rmatch r ic st)"

text \<open>A match object: \<open>start()\<close>, \<open>end()\<close>, \<open>group(0)\<close> and \<open>group(1)\<close>.\<close>

record match_obj =
  m_start :: nat
  m_end :: nat
  group0 :: pystr
  group1 :: "pystr option"

definition mk_match :: "nat \<Rightarrow> pystr \<Rightarrow> mstate \<Rightarrow> match_obj" where
  "mk_match pos s st =
     (let n = length s - length (fst st)
      in \<lparr>m_start = pos, m_end = pos + n, group0 = take n s, group1 = snd st\<rparr>)"

text \<open>
  \<open>re.finditer\<close>: the matches found scanning from left to right, none overlapping another.
  \<open>attempt\<close> is the search at one position: the match found there, if any, and the
  number of following characters it covers, which the scan skips.  After an empty
  match the engine looks at the same position once more for a match that is not empty.
\<close>

definition attempt :: "regex \<Rightarrow> bool \<Rightarrow> nat \<Rightarrow> pystr \<Rightarrow> match_obj list \<times> nat" where
  "attempt r ic pos s =
     (case rmatch r ic (s, None) of
        [] \<Rightarrow> ([], 0)
      | st # sts \<Rightarrow>
          if length (fst st) < length s
          then ([mk_match pos s st], length s - length (fst st) - 1)
          else (case filter (\<lambda>st'. length (fst st') < length s) sts of
                  [] \<Rightarrow> ([mk_match pos s st], 0)
                | st2 # x \<Rightarrow> ([mk_match pos s st, mk_match pos s st2],
                             length s - length (fst st2) - 1)))"

fun finditer_from :: "regex \<Rightarrow> bool \<Rightarrow> nat \<Rightarrow> nat \<Rightarrow> pystr \<Rightarrow> match_obj list" where
  "finditer_from r ic pos (Suc k) [] = []"
| "finditer_from r ic pos (Suc k) (c # cs) = finditer_from r ic (Suc pos) k cs"
| "finditer_from r ic pos 0 [] = fst (attempt r ic pos [])"
| "finditer_from r ic pos 0 (c # cs) =
     (case attempt r ic pos (c # cs) of
        (ms, k) \<Rightarrow> ms @ finditer_from r ic (Suc pos) k cs)"

definition finditer :: "regex \<Rightarrow> bool \<Rightarrow> pystr \<Rightarrow> match_obj list" where
  "finditer r ic s = finditer_from r ic 0 0 s"

text \<open>\<open>re.search\<close>: the leftmost match, if there is one.\<close>

fun search_from :: "regex \<Rightarrow> bool \<Rightarrow> nat \<Rightarrow> pystr \<Rightarrow> match_obj option" where
  "search_from r ic pos [] =
     (case rmatch r ic ([], None) of
        st # sts \<Rightarrow> Some (mk_match pos [] st)
      | [] \<Rightarrow> None)"
| "search_from r ic pos (c # cs) =
     (case rmatch r ic (c # cs, None) of
        st # sts \<Rightarrow> Some (mk_match pos (c # cs) st)
      | [] \<Rightarrow> search_from r ic (Suc pos) cs)"

definition search :: "regex \<Rightarrow> bool \<Rightarrow> pystr \<Rightarrow> match_obj option" where
  "search r ic s = search_from r ic 0 s"

text \<open>Writing patterns: a literal word and a sequence.\<close>

definition lit :: "string \<Rightarrow> regex" where
  "lit s = foldr (\<lambda>c r. Cat (Chr (of_char c)) r) s Eps"

definition seq :: "regex list \<Rightarrow> regex" where
  "seq rs = foldr Cat rs Eps"

definition words :: "string list \<Rightarrow> regex" where
  "words ws = foldr (\<lambda>w r. if r = Eps then lit w
                           else Cat (lit w) (Cat (Plus (CSet False [ISpace])) r)) ws Eps"

section \<open>Data model\<close>

datatype FieldCategory =
  PREMIUM | COVERAGE | DEDUCTIBLE | CLAIM | TAX | FEE | BENEFIT | LIMIT

fun category_value :: "FieldCategory \<Rightarrow> pystr" where
  "category_value PREMIUM = str ''premium''"
| "category_value COVERAGE = str ''coverage''"
| "category_value DEDUCTIBLE = str ''deductible''"
| "category_value CLAIM = str ''claim''"
| "category_value TAX = str ''tax''"
| "category_value FEE = str ''fee''"
| "category_value BENEFIT = str ''benefit''"
| "category_value LIMIT = str ''limit''"

text \<open>
  Amounts and confidences are Python floats in the source.  They are modelled as
  rationals: \<open>value_f\<close> is the decimal that was read and stands for the double nearest
  to it, sums are exact, and only the test for an amount already extracted is computed
  in double precision.
\<close>

record FinancialField =
  field_name :: pystr
  value_f :: rat
  currency :: pystr
  category :: FieldCategory
  context_f :: pystr
  confidence :: rat
  line_number :: "nat option"
  extraction_method :: "pystr option"

text \<open>\<open>to_dict\<close>: the same attributes, the category as its string.\<close>

record FieldDict =
  d_field_name :: pystr
  d_value :: rat
  d_currency :: pystr
  d_category :: pystr
  d_context :: pystr
  d_confidence :: rat
  d_line_number :: "nat option"
  d_extraction_method :: "pystr option"

definition to_dict :: "FinancialField \<Rightarrow> FieldDict" where
  "to_dict f = \<lparr>d_field_name = field_name f, d_value = value_f f, d_currency = currency f,
     d_category = category_value (category f), d_context = context_f f,
     d_confidence = confidence f, d_line_number = line_number f,
     d_extraction_method = extraction_method f\<rparr>"

record InsuranceParser =
  document_text :: pystr
  lines_f :: "pystr list"
  parsed_fields :: "FinancialField list"

definition init :: "pystr \<Rightarrow> InsuranceParser" where
  "init doc = \<lparr>document_text = doc, lines_f = split_lines doc, parsed_fields = []\<rparr>"

text \<open>
  The one exception the extraction code can raise: \<open>match.group(1)\<close> is \<open>None\<close> when
  the group took no part in the match, and \<open>extract_number\<close> then calls \<open>replace\<close> on it.
\<close>

datatype error = AttributeError

section \<open>Class constants\<close>

definition CURRENCY_SYMBOLS :: "(pystr \<times> pystr) list" where
  "CURRENCY_SYMBOLS =
    [([RUPEE], str ''INR''),
     (str ''Rs.'', str ''INR''),
     (str ''Rs'', str ''INR''),
     (str ''INR'', str ''INR''),
     (str ''$'', str ''USD''),
     (str ''USD'', str ''USD''),
     ([EURO], str ''EUR''),
     (str ''EUR'', str ''EUR''),
     ([POUND], str ''GBP''),
     (str ''GBP'', str ''GBP'')]"

text \<open>The pieces the patterns share.\<close>

definition digit :: regex where "digit = CSet False [IDigit]"
definition ws0 :: regex where "ws0 = Star (CSet False [ISpace])"
definition ws1 :: regex where "ws1 = Plus (CSet False [ISpace])"

text \<open>\<open>[:\s]+\<close>\<close>
definition colon_ws :: regex where "colon_ws = Plus (CSet False [IChar 58, ISpace])"

text \<open>\<open>[-\s]\<close>\<close>
definition dash_ws :: regex where "dash_ws = CSet False [IChar 45, ISpace]"

text \<open>\<open>(?:<rupee>|Rs\.?|INR)?\<close>\<close>
definition cur :: regex where
  "cur = Opt (Alt (Chr RUPEE) (Alt (Cat (lit ''Rs'') (Opt (Chr 46))) (lit ''INR'')))"

text \<open>\<open>([\d,]+\.?\d*)\<close>\<close>
definition num :: regex where
  "num = Grp (seq [Plus (CSet False [IDigit, IChar 44]), Opt (Chr 46), Star digit])"

text \<open>\<open>[:\s]+(?:<rupee>|Rs\.?|INR)?\s*([\d,]+\.?\d*)\<close>, the tail of most patterns.\<close>
definition amt :: regex where
  "amt = seq [colon_ws, cur, ws0, num]"

text \<open>\<open>[:\s]+([\d.]+)%\<close>\<close>
definition pct :: regex where
  "pct = seq [colon_ws, Grp (Plus (CSet False [IDigit, IChar 46])), Chr 37]"

definition FIELD_PATTERNS :: "(pystr \<times> regex list) list" where
  "FIELD_PATTERNS =
    [(str ''annual_premium'',
       [seq [words [''Annual'', ''Premium''], Opt (seq [ws1, lit ''Amount'']), amt],
        seq [words [''Total'', ''Annual'', ''Premium''], amt],
        seq [words [''Yearly'', ''Premium''], amt]]),
     (str ''monthly_premium'',
       [seq [words [''Monthly'', ''Premium''], Opt (seq [ws1, lit ''Amount'']), amt],
        seq [words [''Per'', ''Month'', ''Premium''], amt]]),
     (str ''quarterly_premium'',
       [seq [words [''Quarterly'', ''Premium''], Opt (seq [ws1, lit ''Amount'']), amt]]),
     (str ''sum_insured'',
       [seq [words [''Sum'', ''Insured''], amt],
        seq [lit ''Coverage'', ws1, Alt (lit ''Amount'') (lit ''Limit''), amt],
        seq [words [''Annual'', ''Coverage'', ''Limit''], amt]]),
     (str ''maximum_coverage'',
       [seq [words [''Maximum'', ''Coverage''], amt],
        seq [lit ''Max'', Opt (lit ''imum''), ws1, lit ''Limit'', amt]]),
     (str ''deductible'',
       [seq [Opt (seq [lit ''Annual'', ws1]), lit ''Deductible'',
             Opt (seq [ws1, lit ''Amount'']), amt],
        seq [lit ''Out'', dash_ws, lit ''of'', dash_ws, lit ''Pocket'', ws1,
             Alt (lit ''Maximum'') (lit ''Limit''), amt]]),
     (str ''copayment_percentage'',
       [seq [lit ''Co'', Opt dash_ws, lit ''payment'',
             Opt (seq [ws1, lit ''Percentage'']), pct],
        seq [lit ''Co'', Opt dash_ws, lit ''pay'', pct]]),
     (str ''copayment_maximum'',
       [seq [lit ''Co'', Opt dash_ws, lit ''payment'', ws1, lit ''Maximum'', amt]]),
     (str ''gst'',
       [seq [Alt (lit ''GST'') (words [''Goods'', ''and'', ''Services'', ''Tax'']),
             Star (CSet True [IChar 58]), Opt (Chr 64), ws0,
             Plus (CSet False [IDigit, IChar 46]), Chr 37, amt],
        seq [words [''Tax'', ''Amount''], amt]]),
     (str ''admin_fee'',
       [seq [Opt (seq [lit ''Policy'', ws1]), words [''Administration'', ''Fee''], amt],
        seq [words [''Admin'', ''Charge''], Opt (lit ''s''), amt]]),
     (str ''service_charge'',
       [seq [words [''Service'', ''Charge''], Opt (lit ''s''), amt]]),
     (str ''total_amount_paid'',
       [seq [words [''TOTAL'', ''AMOUNT'', ''PAID''], amt],
        seq [words [''Total'', ''Premium'', ''Paid''], amt]]),
     (str ''claim_amount_submitted'',
       [seq [words [''Claim'', ''Amount'', ''Submitted''], amt]]),
     (str ''claim_amount_approved'',
       [seq [words [''Claim'', ''Amount'', ''Approved''], amt]]),
     (str ''total_claims_paid'',
       [seq [words [''Total'', ''Claim'', ''Payout''], Opt (lit ''s''), amt]]),
     (str ''maternity_coverage'',
       [seq [words [''Maternity'', ''Coverage''], Opt (seq [ws1, lit ''Limit'']), amt]]),
     (str ''critical_illness_coverage'',
       [seq [words [''Critical'', ''Illness''], ws1,
             Alt (words [''Sum'', ''Assured'']) (lit ''Coverage''), amt]]),
     (str ''ambulance_charges'',
       [seq [words [''Ambulance'', ''Charge''], Opt (lit ''s''), amt]]),
     (str ''room_limit_per_day'',
       [seq [words [''Room'', ''Limit''], amt, ws0, words [''per'', ''day'']],
        seq [lit ''Per'', ws1, Opt (seq [lit ''Hospitalization'', ws1]),
             words [''Room'', ''Limit''], amt]]),
     (str ''icu_limit_per_day'',
       [seq [words [''ICU'', ''Room'', ''Limit''], amt]]),
     (str ''renewal_premium'',
       [seq [Opt (seq [lit ''Estimated'', ws1]), words [''Renewal'', ''Premium''], amt]]),
     (str ''no_claim_bonus'',
       [seq [words [''No'', ''Claim'', ''Bonus'', ''Discount''],
             Opt (seq [ws1, lit ''Amount'']), amt]])]"

section \<open>Number and currency\<close>

text \<open>
  \<open>float(s)\<close> on the strings the parser passes to it.  A captured group is made of
  digits, commas and dots, and \<open>extract_number\<close> removes the commas, so the argument is
  made of digits and dots: \<open>float\<close> accepts digits with at most one dot and at least
  one digit, after removing surrounding white space, and raises \<open>ValueError\<close>
  (here \<open>None\<close>) on the rest.  Signs, exponents, underscores and the words \<open>inf\<close>
  and \<open>nan\<close> are not modelled.  \<open>python_float\<close> gives the decimal that was read;
  the float Python returns is \<open>to_double\<close> of it, defined below.
\<close>

definition digits_value :: "pystr \<Rightarrow> nat" where
  "digits_value ds = foldl (\<lambda>a c. 10 * a + (c - 48)) 0 ds"

definition python_float :: "pystr \<Rightarrow> rat option" where
  "python_float s =
     (let t = strip s; ip = takeWhile is_digit t
      in case dropWhile is_digit t of
           [] \<Rightarrow> if ip = [] then None else Some (of_nat (digits_value ip))
         | c # fp \<Rightarrow>
             if c = 46 \<and> list_all is_digit fp \<and> (ip \<noteq> [] \<or> fp \<noteq> [])
             then Some (of_nat (digits_value (ip @ fp)) / 10 ^ length fp)
             else None)"

definition extract_number :: "pystr \<Rightarrow> rat option" where
  "extract_number txt = (let cleaned = strip (remove_char 44 txt) in python_float cleaned)"

subsection \<open>Double precision\<close>

text \<open>
  \<open>value_f\<close> holds the decimal number that was read; the float Python stores is the
  IEEE 754 double nearest to it, \<open>to_double\<close>: 53 bits of precision, ties to even,
  gradual underflow below \<open>2^-1022\<close>, and \<open>inf\<close> from \<open>2^1024 - 2^970\<close> on.
  The test by which the scanners recognise an amount as already extracted is computed on
  the doubles as the code computes it: \<open>abs(a - b) < 0.01\<close> with a rounded difference
  and the double nearest to 0.01.  The difference of two \<open>inf\<close> is \<open>nan\<close>, and every
  comparison with \<open>nan\<close> is false.
\<close>

datatype pyfloat = Finite rat | PosInf | NegInf | NaN

fun bit_length :: "nat \<Rightarrow> nat" where
  "bit_length n = (if n = 0 then 0 else 1 + bit_length (n div 2))"

declare bit_length.simps [simp del]

text \<open>For \<open>0 < x\<close>: the \<open>e\<close> with \<open>2^e \<le> x < 2^(e+1)\<close>.\<close>

definition floor_log2 :: "rat \<Rightarrow> int" where
  "floor_log2 x =
     (if 1 \<le> x then int (bit_length (nat \<lfloor>x\<rfloor>)) - 1
      else - int (bit_length (nat (\<lceil>1 / x\<rceil> - 1))))"

definition scale2 :: "rat \<Rightarrow> int \<Rightarrow> rat" where
  "scale2 x k = (if 0 \<le> k then x * 2 ^ nat k else x / 2 ^ nat (- k))"

definition round_half_even :: "rat \<Rightarrow> int" where
  "round_half_even r =
     (let f = \<lfloor>r\<rfloor>; d = r - of_int f
      in if d < 1 / 2 then f else if 1 / 2 < d then f + 1
         else if even f then f else f + 1)"

text \<open>For \<open>0 < x\<close>: \<open>x\<close> rounded to a multiple of \<open>2^q\<close>, \<open>q\<close> the exponent of the last bit.\<close>

definition round_double :: "rat \<Rightarrow> pyfloat" where
  "round_double x =
     (let q = max (floor_log2 x) (- 1022) - 52;
          y = scale2 (of_int (round_half_even (scale2 x (- q)))) q
      in if 2 ^ 1024 \<le> y then PosInf else Finite y)"

fun fneg :: "pyfloat \<Rightarrow> pyfloat" where
  "fneg (Finite x) = Finite (- x)"
| "fneg PosInf = NegInf"
| "fneg NegInf = PosInf"
| "fneg NaN = NaN"

definition to_double :: "rat \<Rightarrow> pyfloat" where
  "to_double x =
     (if x = 0 then Finite 0 else if 0 < x then round_double x
      else fneg (round_double (- x)))"

text \<open>\<open>a - b\<close>, \<open>abs(a)\<close> and \<open>a < b\<close> on floats.\<close>

fun fsub :: "pyfloat \<Rightarrow> pyfloat \<Rightarrow> pyfloat" where
  "fsub (Finite x) (Finite y) = to_double (x - y)"
| "fsub NaN b = NaN"
| "fsub a NaN = NaN"
| "fsub PosInf PosInf = NaN"
| "fsub NegInf NegInf = NaN"
| "fsub PosInf b = PosInf"
| "fsub NegInf b = NegInf"
| "fsub (Finite x) PosInf = NegInf"
| "fsub (Finite x) NegInf = PosInf"

fun fabs :: "pyfloat \<Rightarrow> pyfloat" where
  "fabs (Finite x) = Finite \<bar>x\<bar>"
| "fabs PosInf = PosInf"
| "fabs NegInf = PosInf"
| "fabs NaN = NaN"

fun flt :: "pyfloat \<Rightarrow> pyfloat \<Rightarrow> bool" where
  "flt (Finite x) (Finite y) = (x < y)"
| "flt NaN b = False"
| "flt a NaN = False"
| "flt PosInf b = False"
| "flt a NegInf = False"
| "flt NegInf b = True"
| "flt (Finite x) PosInf = True"

text \<open>\<open>abs(a - b) < 0.01\<close> for the floats of the decimals \<open>a\<close> and \<open>b\<close>.\<close>

definition within_tolerance :: "rat \<Rightarrow> rat \<Rightarrow> bool" where
  "within_tolerance a b =
     flt (fabs (fsub (to_double a) (to_double b))) (to_double (1 / 100))"

text \<open>The float of a decimal is a number, not \<open>inf\<close>.\<close>

definition finite_double :: "rat \<Rightarrow> bool" where
  "finite_double a = (case to_double a of Finite x \<Rightarrow> True | _ \<Rightarrow> False)"

fun detect_loop :: "(pystr \<times> pystr) list \<Rightarrow> pystr \<Rightarrow> pystr" where
  "detect_loop [] txt = str ''INR''"
| "detect_loop ((symbol, code) # rest) txt =
     (if contains symbol txt then code else detect_loop rest txt)"

definition detect_currency :: "pystr \<Rightarrow> pystr" where
  "detect_currency txt = detect_loop CURRENCY_SYMBOLS txt"

section \<open>Confidence and category\<close>

text \<open>\<open>\d{1,3}(,\d{3})*(\.\d{2})?\<close>; only whether it is found is used.\<close>

definition grouped_number :: regex where
  "grouped_number =
     seq [Times 1 3 digit, Star (Grp (seq [Chr 44, Times 3 3 digit])),
          Opt (seq [Chr 46, Times 2 2 digit])]"

definition indicators :: "pystr \<Rightarrow> rat \<Rightarrow> pystr \<Rightarrow> (bool \<times> rat) list" where
  "indicators name v ctx =
     [(contains [RUPEE] ctx \<or> contains (str ''Rs'') ctx, 1 / 10),
      (contains (replace_char 95 32 (lower name)) (lower ctx), 2 / 10),
      (v > 0, 1 / 10),
      (search grouped_number False ctx \<noteq> None, 1 / 10)]"

definition calculate_confidence :: "pystr \<Rightarrow> rat \<Rightarrow> pystr \<Rightarrow> rat" where
  "calculate_confidence name v ctx =
     min (fold (\<lambda>(condition, boost) c. if condition then c + boost else c)
            (indicators name v ctx) (5 / 10)) 1"

definition categorize_field :: "pystr \<Rightarrow> FieldCategory" where
  "categorize_field name =
     (let name_lower = lower name
      in if contains (str ''premium'') name_lower then PREMIUM
         else if contains (str ''claim'') name_lower then CLAIM
         else if contains (str ''deductible'') name_lower
                 \<or> contains (str ''copay'') name_lower then DEDUCTIBLE
         else if contains (str ''tax'') name_lower
                 \<or> contains (str ''gst'') name_lower then TAX
         else if contains (str ''fee'') name_lower
                 \<or> contains (str ''charge'') name_lower then FEE
         else if contains (str ''coverage'') name_lower
                 \<or> contains (str ''insured'') name_lower
                 \<or> contains (str ''benefit'') name_lower then COVERAGE
         else if contains (str ''limit'') name_lower
                 \<or> contains (str ''maximum'') name_lower then LIMIT
         else BENEFIT)"

section \<open>Pattern matching\<close>

text \<open>\<open>s[a:b]\<close> for \<open>0 \<le> a\<close> and \<open>0 \<le> b\<close>.\<close>

definition slice :: "pystr \<Rightarrow> nat \<Rightarrow> nat \<Rightarrow> pystr" where
  "slice s a b = take (b - a) (drop a s)"

definition pattern_field :: "pystr \<Rightarrow> pystr \<Rightarrow> match_obj \<Rightarrow> rat \<Rightarrow> FinancialField" where
  "pattern_field doc name m v =
     (let start = m_start m - 50;
          end = min (length doc) (m_end m + 50);
          ctx = replace_char 10 32 (slice doc start end);
          cur = detect_currency ctx;
          conf = calculate_confidence name v ctx;
          line_num = count_newlines (slice doc 0 (m_start m)) + 1
      in \<lparr>field_name = name, value_f = v, currency = cur,
          category = categorize_field name, context_f = strip ctx, confidence = conf,
          line_number = Some line_num,
          extraction_method = Some (str ''pattern_matching'')\<rparr>)"

text \<open>
  The three nested loops of \<open>parse_with_patterns\<close>, each threading \<open>results\<close>.
  The innermost one leaves at the first match whose number parses; the middle one
  leaves when the last result carries the name of the current table entry.
\<close>

fun match_loop ::
  "pystr \<Rightarrow> pystr \<Rightarrow> match_obj list \<Rightarrow> FinancialField list \<Rightarrow> error + FinancialField list"
where
  "match_loop doc name [] results = Inr results"
| "match_loop doc name (m # ms) results =
     (case group1 m of
        None \<Rightarrow> Inl AttributeError
      | Some value_str \<Rightarrow>
          (case extract_number value_str of
             None \<Rightarrow> match_loop doc name ms results
           | Some v \<Rightarrow> Inr (results @ [pattern_field doc name m v])))"

fun pattern_loop ::
  "pystr \<Rightarrow> pystr \<Rightarrow> regex list \<Rightarrow> FinancialField list \<Rightarrow> error + FinancialField list"
where
  "pattern_loop doc name [] results = Inr results"
| "pattern_loop doc name (p # ps) results =
     (case match_loop doc name (finditer p True doc) results of
        Inl e \<Rightarrow> Inl e
      | Inr results' \<Rightarrow>
          if results' \<noteq> [] \<and> field_name (last results') = name then Inr results'
          else pattern_loop doc name ps results')"

fun field_loop ::
  "pystr \<Rightarrow> (pystr \<times> regex list) list \<Rightarrow> FinancialField list
     \<Rightarrow> error + FinancialField list"
where
  "field_loop doc [] results = Inr results"
| "field_loop doc ((name, patterns) # rest) results =
     (case pattern_loop doc name patterns results of
        Inl e \<Rightarrow> Inl e
      | Inr results' \<Rightarrow> field_loop doc rest results')"

definition parse_with_patterns :: "InsuranceParser \<Rightarrow> error + FinancialField list" where
  "parse_with_patterns self = field_loop (document_text self) FIELD_PATTERNS []"

section \<open>Context scanning and the scan for all amounts\<close>

text \<open>A \<open>for\<close> loop whose body may raise: the first error ends it.\<close>

fun for_each :: "('a \<Rightarrow> 's \<Rightarrow> error + 's) \<Rightarrow> 'a list \<Rightarrow> 's \<Rightarrow> error + 's" where
  "for_each body [] s = Inr s"
| "for_each body (x # xs) s =
     (case body x s of Inl e \<Rightarrow> Inl e | Inr s' \<Rightarrow> for_each body xs s')"

definition keywords_list :: "pystr list" where
  "keywords_list = map str [''premium'', ''deductible'', ''coverage'', ''claim'', ''fee'',
     ''charge'', ''limit'', ''benefit'', ''tax'', ''payment'', ''amount'', ''total'']"

text \<open>\<open>(?:<rupee>|Rs\.?|INR)?\s*([\d,]+\.?\d*)\<close>\<close>

definition context_amount_pattern :: regex where
  "context_amount_pattern = seq [cur, ws0, num]"

text \<open>\<open>(?:<rupee>|Rs\.?|INR|USD|\$|EUR|<euro>)\s*([\d,]+\.?\d*)\<close>\<close>

definition all_amount_pattern :: regex where
  "all_amount_pattern =
     seq [Alt (Chr RUPEE) (Alt (Cat (lit ''Rs'') (Opt (Chr 46))) (Alt (lit ''INR'')
            (Alt (lit ''USD'') (Alt (Chr 36) (Alt (lit ''EUR'') (Chr EURO)))))),
          ws0, num]"

definition already_extracted :: "FinancialField list \<Rightarrow> nat \<Rightarrow> rat \<Rightarrow> bool" where
  "already_extracted fs i v =
     list_ex (\<lambda>f. line_number f = Some i \<and> within_tolerance (value_f f) v) fs"

definition context_field :: "pystr \<Rightarrow> nat \<Rightarrow> pystr \<Rightarrow> rat \<Rightarrow> FinancialField" where
  "context_field keyword i line v =
     (let name = keyword @ str ''_line_'' @ show_nat i;
          cur = detect_currency line;
          conf = calculate_confidence name v line
      in \<lparr>field_name = name, value_f = v, currency = cur,
          category = categorize_field keyword, context_f = strip line,
          confidence = conf * (8 / 10), line_number = Some i,
          extraction_method = Some (str ''context_aware'')\<rparr>)"

definition context_match_step ::
  "InsuranceParser \<Rightarrow> nat \<Rightarrow> pystr \<Rightarrow> pystr \<Rightarrow> match_obj \<Rightarrow> FinancialField list
     \<Rightarrow> error + FinancialField list"
where
  "context_match_step self i line keyword m results =
     (case group1 m of
        None \<Rightarrow> Inl AttributeError
      | Some g \<Rightarrow>
          (case extract_number g of
             None \<Rightarrow> Inr results
           | Some v \<Rightarrow>
               if v \<noteq> 0 \<and> v > 0
               then if \<not> already_extracted (parsed_fields self) i v
                    then Inr (results @ [context_field keyword i line v])
                    else Inr results
               else Inr results))"

definition context_keyword_step ::
  "InsuranceParser \<Rightarrow> nat \<Rightarrow> pystr \<Rightarrow> pystr \<Rightarrow> FinancialField list
     \<Rightarrow> error + FinancialField list"
where
  "context_keyword_step self i line keyword results =
     (if contains keyword (lower line)
      then for_each (context_match_step self i line keyword)
             (finditer context_amount_pattern False line) results
      else Inr results)"

definition context_line_step ::
  "InsuranceParser \<Rightarrow> nat \<times> pystr \<Rightarrow> FinancialField list \<Rightarrow> error + FinancialField list"
where
  "context_line_step self il results =
     for_each (context_keyword_step self (fst il) (snd il)) keywords_list results"

definition parse_context_aware :: "InsuranceParser \<Rightarrow> error + FinancialField list" where
  "parse_context_aware self =
     for_each (context_line_step self) (enumerate 1 (lines_f self)) []"

definition amount_field :: "nat \<Rightarrow> pystr \<Rightarrow> match_obj \<Rightarrow> rat \<Rightarrow> FinancialField" where
  "amount_field i line m v =
     \<lparr>field_name = str ''amount_line_'' @ show_nat i, value_f = v,
      currency = detect_currency (group0 m), category = BENEFIT,
      context_f = strip line, confidence = 5 / 10, line_number = Some i,
      extraction_method = Some (str ''all_amounts'')\<rparr>"

definition amount_match_step ::
  "InsuranceParser \<Rightarrow> nat \<Rightarrow> pystr \<Rightarrow> match_obj \<Rightarrow> FinancialField list
     \<Rightarrow> error + FinancialField list"
where
  "amount_match_step self i line m results =
     (case group1 m of
        None \<Rightarrow> Inl AttributeError
      | Some g \<Rightarrow>
          (case extract_number g of
             None \<Rightarrow> Inr results
           | Some v \<Rightarrow>
               if v \<noteq> 0 \<and> v > 0
               then if \<not> already_extracted (parsed_fields self) i v
                    then Inr (results @ [amount_field i line m v])
                    else Inr results
               else Inr results))"

definition amount_line_step ::
  "InsuranceParser \<Rightarrow> nat \<times> pystr \<Rightarrow> FinancialField list \<Rightarrow> error + FinancialField list"
where
  "amount_line_step self il results =
     for_each (amount_match_step self (fst il) (snd il))
       (finditer all_amount_pattern True (snd il)) results"

definition parse_all_amounts :: "InsuranceParser \<Rightarrow> error + FinancialField list" where
  "parse_all_amounts self =
     for_each (amount_line_step self) (enumerate 1 (lines_f self)) []"

section \<open>Orchestration and summary\<close>

record Summary =
  by_category :: "pystr \<rightharpoonup> nat"
  by_currency :: "pystr \<rightharpoonup> nat"
  high_confidence_fields :: nat
  total_premium_amount :: rat
  total_coverage_amount :: rat
  total_claims_amount :: rat

text \<open>\<open>d[k] = d.get(k, 0) + 1\<close>\<close>

definition incr :: "(pystr \<rightharpoonup> nat) \<Rightarrow> pystr \<Rightarrow> (pystr \<rightharpoonup> nat)" where
  "incr d k = d(k \<mapsto> (case d k of None \<Rightarrow> 0 | Some n \<Rightarrow> n) + 1)"

definition summary_step :: "FinancialField \<Rightarrow> Summary \<Rightarrow> Summary" where
  "summary_step f s =
     (let s1 = s\<lparr>by_category := incr (by_category s) (category_value (category f))\<rparr>;
          s2 = s1\<lparr>by_currency := incr (by_currency s1) (currency f)\<rparr>;
          s3 = (if confidence f \<ge> 8 / 10
                then s2\<lparr>high_confidence_fields := high_confidence_fields s2 + 1\<rparr>
                else s2)
      in if category f = PREMIUM \<and> confidence f \<ge> 7 / 10
         then s3\<lparr>total_premium_amount := total_premium_amount s3 + value_f f\<rparr>
         else if category f = COVERAGE \<and> confidence f \<ge> 7 / 10
         then s3\<lparr>total_coverage_amount := total_coverage_amount s3 + value_f f\<rparr>
         else if category f = CLAIM \<and> confidence f \<ge> 7 / 10
         then s3\<lparr>total_claims_amount := total_claims_amount s3 + value_f f\<rparr>
         else s3)"

definition generate_summary :: "InsuranceParser \<Rightarrow> Summary" where
  "generate_summary self =
     fold summary_step (parsed_fields self)
       \<lparr>by_category = Map.empty, by_currency = Map.empty, high_confidence_fields = 0,
        total_premium_amount = 0, total_coverage_amount = 0, total_claims_amount = 0\<rparr>"

record Metadata =
  total_fields_extracted :: nat
  pattern_matches :: nat
  context_matches :: nat
  extraction_date :: pystr
  parser_version :: pystr

record ParseResult =
  metadata :: Metadata
  fields_f :: "FieldDict list"
  summary :: Summary

text \<open>
  \<open>parse\<close> changes \<open>self.parsed_fields\<close>, so it returns the parser with the result.
  \<open>now\<close> is what the clock gives for \<open>extraction_date\<close>.  \<open>sort\<close> with
  \<open>reverse=True\<close> is stable: fields of equal confidence keep their order.
\<close>

definition extend :: "InsuranceParser \<Rightarrow> FinancialField list \<Rightarrow> InsuranceParser" where
  "extend self fs = self\<lparr>parsed_fields := parsed_fields self @ fs\<rparr>"

definition sort_by_confidence :: "InsuranceParser \<Rightarrow> InsuranceParser" where
  "sort_by_confidence self =
     self\<lparr>parsed_fields := sort_key (\<lambda>x. - confidence x) (parsed_fields self)\<rparr>"

definition compile_results ::
  "InsuranceParser \<Rightarrow> FinancialField list \<Rightarrow> FinancialField list \<Rightarrow> pystr \<Rightarrow> ParseResult"
where
  "compile_results self pattern_results context_results now =
     \<lparr>metadata = \<lparr>total_fields_extracted = length (parsed_fields self),
                  pattern_matches = length pattern_results,
                  context_matches = length context_results,
                  extraction_date = now,
                  parser_version = str ''1.0.0''\<rparr>,
      fields_f = map to_dict (parsed_fields self),
      summary = generate_summary self\<rparr>"

definition parse ::
  "InsuranceParser \<Rightarrow> bool \<Rightarrow> pystr \<Rightarrow> error + (ParseResult \<times> InsuranceParser)"
where
  "parse self include_all_amounts now =
     (case parse_with_patterns self of
        Inl e \<Rightarrow> Inl e
      | Inr pattern_results \<Rightarrow>
          let self1 = extend self pattern_results
          in (case parse_context_aware self1 of
                Inl e \<Rightarrow> Inl e
              | Inr context_results \<Rightarrow>
                  let self2 = extend self1 context_results
                  in (case (if include_all_amounts
                            then (case parse_all_amounts self2 of
                                    Inl e \<Rightarrow> Inl e
                                  | Inr all_amounts \<Rightarrow> Inr (extend self2 all_amounts))
                            else Inr self2) of
                        Inl e \<Rightarrow> Inl e
                      | Inr self3 \<Rightarrow>
                          let self4 = sort_by_confidence self3
                          in Inr (compile_results self4 pattern_results context_results now,
                                  self4))))"

section \<open>Notions used in the statements\<close>

text \<open>
  The accumulated field list after a call of \<open>parse\<close>, and a second call on the parser
  the first call leaves behind.
\<close>

definition result_fields ::
  "error + (ParseResult \<times> InsuranceParser) \<Rightarrow> FinancialField list" where
  "result_fields res = (case res of Inl e \<Rightarrow> [] | Inr rs \<Rightarrow> parsed_fields (snd rs))"

definition parse_again ::
  "error + (ParseResult \<times> InsuranceParser) \<Rightarrow> bool \<Rightarrow> pystr
     \<Rightarrow> error + (ParseResult \<times> InsuranceParser)" where
  "parse_again res include_all_amounts now =
     (case res of Inl e \<Rightarrow> Inl e | Inr rs \<Rightarrow> parse (snd rs) include_all_amounts now)"

text \<open>
  Two fields at the same line whose values, as the decimals read, differ by less
  than 0.01.
\<close>

definition same_place :: "FinancialField \<Rightarrow> FinancialField \<Rightarrow> bool" where
  "same_place f g = (line_number f = line_number g \<and> \<bar>value_f f - value_f g\<bar> < 1 / 100)"

fun no_duplicates :: "FinancialField list \<Rightarrow> bool" where
  "no_duplicates [] = True"
| "no_duplicates (f # fs) = (\<not> list_ex (same_place f) fs \<and> no_duplicates fs)"

text \<open>
  Two fields at the same line whose values the code's test takes for the same amount.
\<close>

definition dedup_match :: "FinancialField \<Rightarrow> FinancialField \<Rightarrow> bool" where
  "dedup_match f g =
     (line_number f = line_number g \<and> within_tolerance (value_f f) (value_f g))"

text \<open>A field that a line scanner added and whose value is \<open>inf\<close>.\<close>

definition scanned_inf :: "FinancialField \<Rightarrow> bool" where
  "scanned_inf f =
     (extraction_method f \<noteq> Some (str ''pattern_matching'') \<and> \<not> finite_double (value_f f))"

text \<open>
  A second document, of one line, on which the pattern matcher and the context scanner
  add fields at the same line: \<^verbatim>\<open>Tax Amount: 5 fee 7\<close>.
\<close>

definition sample_line :: pystr where
  "sample_line = str ''Tax Amount: 5 fee 7''"

text \<open>A pattern in which group 1 takes part in every match.\<close>

primrec always_captures :: "regex \<Rightarrow> bool" where
  "always_captures Eps = False"
| "always_captures (Chr p) = False"
| "always_captures (CSet neg items) = False"
| "always_captures (Cat r1 r2) = (always_captures r1 \<or> always_captures r2)"
| "always_captures (Alt r1 r2) = (always_captures r1 \<and> always_captures r2)"
| "always_captures (Opt r) = False"
| "always_captures (Star r) = False"
| "always_captures (Plus r) = always_captures r"
| "always_captures (Times mn mx r) = (0 < mn \<and> always_captures r)"
| "always_captures (Grp r) = True"

text \<open>
  The pattern matcher as the specification words it: for a table entry, the first of its
  patterns that has a match with a number that parses gives the field, from the first
  such match; an entry with no such pattern gives nothing.
\<close>

definition parsed_value :: "match_obj \<Rightarrow> rat option" where
  "parsed_value m = (case group1 m of None \<Rightarrow> None | Some g \<Rightarrow> extract_number g)"

definition parseable :: "match_obj \<Rightarrow> bool" where
  "parseable m = (parsed_value m \<noteq> None)"

definition first_match_wins :: "pystr \<Rightarrow> pystr \<times> regex list \<Rightarrow> FinancialField list" where
  "first_match_wins doc entry =
     (case List.find (\<lambda>p. list_ex parseable (finditer p True doc)) (snd entry) of
        None \<Rightarrow> []
      | Some p \<Rightarrow>
          (case List.find parseable (finditer p True doc) of
             None \<Rightarrow> []
           | Some m \<Rightarrow>
               (case parsed_value m of
                  None \<Rightarrow> []
                | Some v \<Rightarrow> [pattern_field doc (fst entry) m v])))"

definition spec_pattern_matcher :: "pystr \<Rightarrow> FinancialField list" where
  "spec_pattern_matcher doc = concat (map (first_match_wins doc) FIELD_PATTERNS)"

text \<open>
  The amounts the two line scanners look at, before the check against the accumulated
  fields: line number, line, keyword (or match) and the positive value.
\<close>

definition positive_values :: "match_obj list \<Rightarrow> (match_obj \<times> rat) list" where
  "positive_values ms =
     concat (map (\<lambda>m. case parsed_value m of None \<Rightarrow> []
                        | Some v \<Rightarrow> if v \<noteq> 0 \<and> v > 0 then [(m, v)] else []) ms)"

definition context_candidates :: "pystr list \<Rightarrow> (nat \<times> pystr \<times> pystr \<times> rat) list" where
  "context_candidates ls =
     concat (map (\<lambda>il.
       concat (map (\<lambda>keyword.
         if contains keyword (lower (snd il))
         then map (\<lambda>mv. (fst il, snd il, keyword, snd mv))
                (positive_values (finditer context_amount_pattern False (snd il)))
         else []) keywords_list)) (enumerate 1 ls))"

definition amount_candidates :: "pystr list \<Rightarrow> (nat \<times> pystr \<times> match_obj \<times> rat) list" where
  "amount_candidates ls =
     concat (map (\<lambda>il.
       map (\<lambda>mv. (fst il, snd il, fst mv, snd mv))
         (positive_values (finditer all_amount_pattern True (snd il)))) (enumerate 1 ls))"

text \<open>What a scanner appends for one such amount, given the accumulated fields.\<close>

definition context_emit ::
  "FinancialField list \<Rightarrow> nat \<times> pystr \<times> pystr \<times> rat \<Rightarrow> FinancialField list" where
  "context_emit fs c =
     (if \<not> already_extracted fs (fst c) (snd (snd (snd c)))
      then [context_field (fst (snd (snd c))) (fst c) (fst (snd c)) (snd (snd (snd c)))]
      else [])"

definition amount_emit ::
  "FinancialField list \<Rightarrow> nat \<times> pystr \<times> match_obj \<times> rat \<Rightarrow> FinancialField list" where
  "amount_emit fs c =
     (if \<not> already_extracted fs (fst c) (snd (snd (snd c)))
      then [amount_field (fst c) (fst (snd c)) (fst (snd (snd c))) (snd (snd (snd c)))]
      else [])"

text \<open>The fields the three strategies add in one call of \<open>parse\<close>.\<close>

definition pattern_part :: "InsuranceParser \<Rightarrow> FinancialField list" where
  "pattern_part self = spec_pattern_matcher (document_text self)"

definition context_part :: "InsuranceParser \<Rightarrow> FinancialField list" where
  "context_part self =
     concat (map (context_emit (parsed_fields self @ pattern_part self))
       (context_candidates (lines_f self)))"

definition amount_part :: "InsuranceParser \<Rightarrow> bool \<Rightarrow> FinancialField list" where
  "amount_part self include_all_amounts =
     (if include_all_amounts
      then concat (map (amount_emit (parsed_fields self @ pattern_part self @ context_part self))
             (amount_candidates (lines_f self)))
      else [])"

text \<open>
  A document of three lines on which each strategy adds a field:
  \<^verbatim>\<open>total fee 7\<close>, \<^verbatim>\<open>Tax Amount: 5\<close>, \<^verbatim>\<open>$9\<close>.
\<close>

definition sample_document :: pystr where
  "sample_document = str ''total fee 7'' @ [10] @ str ''Tax Amount: 5'' @ [10] @ str ''$9''"

section \<open>Properties of the summary, the currency and the confidence\<close>

lemma fold_summary_premium:
  "total_premium_amount (fold summary_step fs s) =
     total_premium_amount s +
     sum_list (map value_f (filter (\<lambda>f. category f = PREMIUM \<and> confidence f \<ge> 7 / 10) fs))"
  by (induction fs arbitrary: s) (simp_all add: summary_step_def Let_def)

lemma fold_summary_coverage:
  "total_coverage_amount (fold summary_step fs s) =
     total_coverage_amount s +
     sum_list (map value_f (filter (\<lambda>f. category f = COVERAGE \<and> confidence f \<ge> 7 / 10) fs))"
  by (induction fs arbitrary: s) (simp_all add: summary_step_def Let_def)

lemma fold_summary_claims:
  "total_claims_amount (fold summary_step fs s) =
     total_claims_amount s +
     sum_list (map value_f (filter (\<lambda>f. category f = CLAIM \<and> confidence f \<ge> 7 / 10) fs))"
  by (induction fs arbitrary: s) (simp_all add: summary_step_def Let_def)

lemma fold_summary_high:
  "high_confidence_fields (fold summary_step fs s) =
     high_confidence_fields s + length (filter (\<lambda>f. confidence f \<ge> 8 / 10) fs)"
  by (induction fs arbitrary: s) (simp_all add: summary_step_def Let_def)

text \<open>
  C7.  For every accumulated field list the summary's \<open>total_premium_amount\<close> is the
  sum of the values of the fields of category PREMIUM with confidence at least 0.7,
  likewise \<open>total_coverage_amount\<close> for COVERAGE and \<open>total_claims_amount\<close> for CLAIM,
  plain sums from 0 with no currency conversion, and \<open>high_confidence_fields\<close> is the
  number of fields with confidence at least 0.8.
\<close>

theorem summary_totals:
  "total_premium_amount (generate_summary self) =
     sum_list (map value_f
       (filter (\<lambda>f. category f = PREMIUM \<and> confidence f \<ge> 7 / 10) (parsed_fields self)))
   \<and> total_coverage_amount (generate_summary self) =
     sum_list (map value_f
       (filter (\<lambda>f. category f = COVERAGE \<and> confidence f \<ge> 7 / 10) (parsed_fields self)))
   \<and> total_claims_amount (generate_summary self) =
     sum_list (map value_f
       (filter (\<lambda>f. category f = CLAIM \<and> confidence f \<ge> 7 / 10) (parsed_fields self)))
   \<and> high_confidence_fields (generate_summary self) =
     length (filter (\<lambda>f. confidence f \<ge> 8 / 10) (parsed_fields self))"
  unfolding generate_summary_def
  by (simp add: fold_summary_premium fold_summary_coverage fold_summary_claims
        fold_summary_high)

text \<open>
  C8.  For every text \<open>detect_currency\<close> returns the code of the first marker, in the
  order rupee sign, \<open>Rs.\<close>, \<open>Rs\<close>, \<open>INR\<close>, \<open>$\<close>, \<open>USD\<close>, euro sign, \<open>EUR\<close>, pound sign,
  \<open>GBP\<close>, that occurs in the text, and \<open>INR\<close> when none occurs.
\<close>

theorem detect_currency_priority:
  "detect_currency txt =
     (if contains [RUPEE] txt then str ''INR''
      else if contains (str ''Rs.'') txt then str ''INR''
      else if contains (str ''Rs'') txt then str ''INR''
      else if contains (str ''INR'') txt then str ''INR''
      else if contains (str ''$'') txt then str ''USD''
      else if contains (str ''USD'') txt then str ''USD''
      else if contains [EURO] txt then str ''EUR''
      else if contains (str ''EUR'') txt then str ''EUR''
      else if contains [POUND] txt then str ''GBP''
      else if contains (str ''GBP'') txt then str ''GBP''
      else str ''INR'')"
  by (simp add: detect_currency_def CURRENCY_SYMBOLS_def)

text \<open>
  C4.  The confidence is 0.5, plus 0.1 if the context contains the rupee sign or \<open>Rs\<close>,
  plus 0.2 if the lower-cased field name with underscores replaced by spaces occurs in
  the lower-cased context, plus 0.1 if the value is positive, plus 0.1 if the grouped
  number pattern is found in the context, the sum capped at 1; so it lies between 0.5
  and 1.
\<close>

theorem calculate_confidence_formula:
  "calculate_confidence name v ctx =
     min (5 / 10
          + (if contains [RUPEE] ctx \<or> contains (str ''Rs'') ctx then 1 / 10 else 0)
          + (if contains (replace_char 95 32 (lower name)) (lower ctx) then 2 / 10 else 0)
          + (if v > 0 then 1 / 10 else 0)
          + (if search grouped_number False ctx \<noteq> None then 1 / 10 else 0)) 1
   \<and> 5 / 10 \<le> calculate_confidence name v ctx
   \<and> calculate_confidence name v ctx \<le> 1"
  by (simp add: calculate_confidence_def indicators_def)

section \<open>Group 1 takes part in every match of the parser's patterns\<close>

lemma star_iter_keeps:
  assumes "\<And>st st'. snd st \<noteq> None \<Longrightarrow> st' \<in> set (f st) \<Longrightarrow> snd st' \<noteq> None"
  shows "snd st \<noteq> None \<Longrightarrow> st' \<in> set (star_iter f n st) \<Longrightarrow> snd st' \<noteq> None"
proof (induction n arbitrary: st)
  case 0
  then show ?case by simp
next
  case (Suc n)
  from Suc.prems(2) consider "st' = st"
    | st1 where "st1 \<in> set (f st)" "st' \<in> set (star_iter f n st1)"
    by auto
  then show ?case
  proof cases
    case 1
    with Suc.prems(1) show ?thesis by simp
  next
    case 2
    from assms[OF Suc.prems(1) 2(1)] have "snd st1 \<noteq> None" .
    from Suc.IH[OF this 2(2)] show ?thesis .
  qed
qed

lemma times_iter_keeps:
  assumes "\<And>st st'. snd st \<noteq> None \<Longrightarrow> st' \<in> set (f st) \<Longrightarrow> snd st' \<noteq> None"
  shows "snd st \<noteq> None \<Longrightarrow> st' \<in> set (times_iter f mn mx st) \<Longrightarrow> snd st' \<noteq> None"
proof (induction mx arbitrary: st mn)
  case 0
  then show ?case by (simp split: if_splits)
next
  case (Suc k)
  from Suc.prems(2) consider "st' = st"
    | st1 where "st1 \<in> set (f st)" "st' \<in> set (times_iter f (mn - 1) k st1)"
    by (auto split: if_splits)
  then show ?case
  proof cases
    case 1
    with Suc.prems(1) show ?thesis by simp
  next
    case 2
    from assms[OF Suc.prems(1) 2(1)] have "snd st1 \<noteq> None" .
    from Suc.IH[OF this 2(2)] show ?thesis .
  qed
qed

lemma rmatch_keeps:
  "snd st \<noteq> None \<Longrightarrow> st' \<in> set (rmatch r ic st) \<Longrightarrow> snd st' \<noteq> None"
proof (induction r arbitrary: st st')
  case Eps
  then show ?case by simp
next
  case (Chr p)
  then show ?case by (cases "fst st") (auto split: if_splits)
next
  case (CSet neg items)
  then show ?case by (cases "fst st") (auto split: if_splits)
next
  case (Cat r1 r2)
  from Cat.prems(2) obtain st1 where
    a: "st1 \<in> set (rmatch r1 ic st)" and b: "st' \<in> set (rmatch r2 ic st1)"
    by auto
  from Cat.IH(1)[OF Cat.prems(1) a] have "snd st1 \<noteq> None" .
  from Cat.IH(2)[OF this b] show ?case .
next
  case (Alt r1 r2)
  from Alt.prems(2) have "st' \<in> set (rmatch r1 ic st) \<or> st' \<in> set (rmatch r2 ic st)"
    by simp
  then show ?case using Alt.IH Alt.prems(1) by blast
next
  case (Opt r)
  from Opt.prems(2) have "st' \<in> set (rmatch r ic st) \<or> st' = st" by auto
  then show ?case using Opt.IH Opt.prems(1) by blast
next
  case (Star r)
  from Star.prems(2) have "st' \<in> set (star_iter (rmatch r ic) (length (fst st)) st)"
    by simp
  then show ?case using star_iter_keeps[of "rmatch r ic" st st'] Star.IH Star.prems(1)
    by blast
next
  case (Plus r)
  from Plus.prems(2) obtain st1 where
    a: "st1 \<in> set (rmatch r ic st)" and b: "st' \<in> set (star_iter (rmatch r ic) (length (fst st1)) st1)"
    by auto
  from Plus.IH[OF Plus.prems(1) a] have "snd st1 \<noteq> None" .
  then show ?case using star_iter_keeps[of "rmatch r ic" st1 st'] Plus.IH b by blast
next
  case (Times mn mx r)
  from Times.prems(2) have "st' \<in> set (times_iter (rmatch r ic) mn mx st)" by simp
  then show ?case using times_iter_keeps[of "rmatch r ic" st st'] Times.IH Times.prems(1)
    by blast
next
  case (Grp r)
  then show ?case by auto
qed

lemma rmatch_captures:
  "always_captures r \<Longrightarrow> st' \<in> set (rmatch r ic st) \<Longrightarrow> snd st' \<noteq> None"
proof (induction r arbitrary: st st')
  case (Cat r1 r2)
  from Cat.prems(2) obtain st1 where
    a: "st1 \<in> set (rmatch r1 ic st)" and b: "st' \<in> set (rmatch r2 ic st1)"
    by auto
  show ?case
  proof (cases "always_captures r1")
    case True
    from Cat.IH(1)[OF True a] have "snd st1 \<noteq> None" .
    then show ?thesis using rmatch_keeps b by blast
  next
    case False
    with Cat.prems(1) have "always_captures r2" by simp
    from Cat.IH(2)[OF this b] show ?thesis .
  qed
next
  case (Plus r)
  from Plus.prems(2) obtain st1 where
    a: "st1 \<in> set (rmatch r ic st)" and b: "st' \<in> set (star_iter (rmatch r ic) (length (fst st1)) st1)"
    by auto
  from Plus.prems(1) have "always_captures r" by simp
  from Plus.IH[OF this a] have "snd st1 \<noteq> None" .
  then show ?case using star_iter_keeps[of "rmatch r ic" st1 st'] rmatch_keeps b by blast
next
  case (Times mn mx r)
  then have c: "always_captures r" and mn: "0 < mn" by simp_all
  from Times.prems(2) have m: "st' \<in> set (times_iter (rmatch r ic) mn mx st)" by simp
  show ?case
  proof (cases mx)
    case 0
    with m mn show ?thesis by simp
  next
    case (Suc k)
    with m mn obtain st1 where
      a: "st1 \<in> set (rmatch r ic st)" and b: "st' \<in> set (times_iter (rmatch r ic) (mn - 1) k st1)"
      by auto
    from Times.IH[OF c a] have "snd st1 \<noteq> None" .
    then show ?thesis using times_iter_keeps[of "rmatch r ic" st1 st'] rmatch_keeps b by blast
  qed
qed auto

lemma attempt_captures:
  assumes "always_captures r" and "m \<in> set (fst (attempt r ic pos s))"
  shows "group1 m \<noteq> None"
proof -
  have cap: "\<And>st. st \<in> set (rmatch r ic (s, None)) \<Longrightarrow> group1 (mk_match pos s st) \<noteq> None"
    using rmatch_captures[OF assms(1)] by (simp add: mk_match_def Let_def)
  show ?thesis
  proof (cases "rmatch r ic (s, None)")
    case Nil
    with assms(2) show ?thesis by (simp add: attempt_def)
  next
    case (Cons st sts)
    have st_in: "st \<in> set (rmatch r ic (s, None))" using Cons by simp
    show ?thesis
    proof (cases "filter (\<lambda>st'. length (fst st') < length s) sts")
      case Nil
      with assms(2) Cons cap[OF st_in] show ?thesis
        by (auto simp: attempt_def split: if_splits)
    next
      case c2: (Cons st2 x)
      then have "st2 \<in> set (filter (\<lambda>st'. length (fst st') < length s) sts)" by simp
      then have "st2 \<in> set (rmatch r ic (s, None))" using Cons by simp
      with assms(2) Cons c2 cap[OF st_in] cap[of st2] show ?thesis
        by (auto simp: attempt_def split: if_splits)
    qed
  qed
qed

lemma finditer_from_captures:
  "always_captures r \<Longrightarrow> m \<in> set (finditer_from r ic pos k s) \<Longrightarrow> group1 m \<noteq> None"
proof (induction r ic pos k s rule: finditer_from.induct)
  case (3 r ic pos)
  then show ?case using attempt_captures[of r m ic pos "[]"] by simp
next
  case (4 r ic pos c cs)
  obtain ms k where a: "attempt r ic pos (c # cs) = (ms, k)" by (cases "attempt r ic pos (c # cs)")
  with "4.prems" have "m \<in> set ms \<or> m \<in> set (finditer_from r ic (Suc pos) k cs)" by simp
  then show ?case
  proof
    assume "m \<in> set ms"
    then show ?thesis using attempt_captures[of r m ic pos "c # cs"] a "4.prems"(1) by simp
  next
    assume "m \<in> set (finditer_from r ic (Suc pos) k cs)"
    then show ?thesis using "4.IH"[OF a[symmetric] "4.prems"(1)] by simp
  qed
qed simp_all

lemma finditer_captures:
  "always_captures r \<Longrightarrow> m \<in> set (finditer r ic s) \<Longrightarrow> group1 m \<noteq> None"
  unfolding finditer_def by (rule finditer_from_captures)

lemmas pattern_pieces = seq_def words_def lit_def ws0_def ws1_def colon_ws_def dash_ws_def
  cur_def num_def amt_def pct_def digit_def

lemma table_captures:
  "list_all (\<lambda>entry. list_all always_captures (snd entry)) FIELD_PATTERNS"
  by (simp add: FIELD_PATTERNS_def pattern_pieces)

lemma context_pattern_captures: "always_captures context_amount_pattern"
  by (simp add: context_amount_pattern_def pattern_pieces)

lemma all_pattern_captures: "always_captures all_amount_pattern"
  by (simp add: all_amount_pattern_def pattern_pieces)

lemma table_distinct: "distinct (map fst FIELD_PATTERNS)"
  by (simp add: FIELD_PATTERNS_def str_def)

section \<open>The pattern matcher takes the first match of the first pattern\<close>

lemma field_name_pattern_field [simp]: "field_name (pattern_field doc name m v) = name"
  by (simp add: pattern_field_def Let_def)

lemma match_loop_spec:
  assumes "\<forall>m \<in> set ms. group1 m \<noteq> None"
  shows "match_loop doc name ms results =
     Inr (results @
       (case List.find parseable ms of
          None \<Rightarrow> []
        | Some m \<Rightarrow> (case parsed_value m of None \<Rightarrow> []
                     | Some v \<Rightarrow> [pattern_field doc name m v])))"
  using assms
proof (induction ms)
  case Nil
  then show ?case by simp
next
  case (Cons m ms)
  then obtain g where g: "group1 m = Some g" by auto
  show ?case
  proof (cases "extract_number g")
    case None
    with g Cons show ?thesis by (simp add: parsed_value_def parseable_def)
  next
    case (Some v)
    with g show ?thesis by (simp add: parsed_value_def parseable_def)
  qed
qed

lemma find_parsed_None:
  "List.find parseable ms = None \<longleftrightarrow> \<not> list_ex parseable ms"
  by (auto simp: find_None_iff list_ex_iff)

lemma pattern_loop_spec:
  assumes "list_all always_captures ps"
    and "results = [] \<or> field_name (last results) \<noteq> name"
  shows "pattern_loop doc name ps results = Inr (results @ first_match_wins doc (name, ps))"
  using assms
proof (induction ps)
  case Nil
  then show ?case by (simp add: first_match_wins_def)
next
  case (Cons p ps)
  let ?ms = "finditer p True doc"
  from Cons.prems(1) have cap: "\<forall>m \<in> set ?ms. group1 m \<noteq> None"
    using finditer_captures by auto
  note ml = match_loop_spec[OF cap, of doc name results]
  show ?case
  proof (cases "List.find parseable ?ms")
    case None
    then have no: "\<not> list_ex parseable ?ms"
      by (simp add: find_parsed_None)
    from None ml have "match_loop doc name ?ms results = Inr results" by simp
    moreover have "first_match_wins doc (name, p # ps) = first_match_wins doc (name, ps)"
      using no by (simp add: first_match_wins_def split: option.splits)
    ultimately show ?thesis using Cons by auto
  next
    case (Some m)
    then have pm: "parsed_value m \<noteq> None" by (auto simp: find_Some_iff parseable_def)
    then obtain v where v: "parsed_value m = Some v" by auto
    from Some have ex: "list_ex parseable ?ms"
      using find_parsed_None[of ?ms] by simp
    from Some v ml have "match_loop doc name ?ms results =
        Inr (results @ [pattern_field doc name m v])" by simp
    moreover have "first_match_wins doc (name, p # ps) = [pattern_field doc name m v]"
      using ex Some v by (simp add: first_match_wins_def split: option.splits)
    ultimately show ?thesis by simp
  qed
qed

lemma first_match_wins_names:
  "f \<in> set (first_match_wins doc entry) \<Longrightarrow> field_name f = fst entry"
  by (auto simp: first_match_wins_def split: option.splits)

lemma first_match_wins_length: "length (first_match_wins doc entry) \<le> 1"
  by (simp add: first_match_wins_def split: option.splits)

lemma field_loop_spec:
  assumes "list_all (\<lambda>entry. list_all always_captures (snd entry)) tbl"
    and "distinct (map fst tbl)"
    and "\<forall>f \<in> set results. field_name f \<notin> set (map fst tbl)"
  shows "field_loop doc tbl results = Inr (results @ concat (map (first_match_wins doc) tbl))"
  using assms
proof (induction tbl arbitrary: results)
  case Nil
  then show ?case by simp
next
  case (Cons entry tbl)
  obtain name ps where e: "entry = (name, ps)" by (cases entry)
  from Cons.prems(3) e have "results = [] \<or> field_name (last results) \<noteq> name"
    by (cases "results = []") auto
  with Cons.prems(1) e have
    pl: "pattern_loop doc name ps results = Inr (results @ first_match_wins doc (name, ps))"
    using pattern_loop_spec by simp
  have "\<forall>f \<in> set (results @ first_match_wins doc (name, ps)). field_name f \<notin> set (map fst tbl)"
    using Cons.prems(2,3) e first_match_wins_names[of _ doc "(name, ps)"] by auto
  with Cons.IH[of "results @ first_match_wins doc (name, ps)"] Cons.prems(1,2)
  have "field_loop doc tbl (results @ first_match_wins doc (name, ps)) =
      Inr ((results @ first_match_wins doc (name, ps)) @ concat (map (first_match_wins doc) tbl))"
    by simp
  with pl e show ?case by simp
qed

lemma parse_with_patterns_spec:
  "parse_with_patterns self = Inr (spec_pattern_matcher (document_text self))"
  unfolding parse_with_patterns_def spec_pattern_matcher_def
  using field_loop_spec[OF table_captures table_distinct, of "[]"] by simp

lemma concat_names_filter:
  "name \<notin> set (map fst tbl) \<Longrightarrow>
     filter (\<lambda>f. field_name f = name) (concat (map (first_match_wins doc) tbl)) = []"
  by (induction tbl) (auto simp: filter_empty_conv dest: first_match_wins_names)

lemma concat_one_per_name:
  "distinct (map fst tbl) \<Longrightarrow>
     length (filter (\<lambda>f. field_name f = name) (concat (map (first_match_wins doc) tbl))) \<le> 1"
proof (induction tbl)
  case Nil
  then show ?case by simp
next
  case (Cons entry tbl)
  show ?case
  proof (cases "fst entry = name")
    case True
    with Cons.prems have "name \<notin> set (map fst tbl)" by auto
    then have "filter (\<lambda>f. field_name f = name) (concat (map (first_match_wins doc) tbl)) = []"
      by (rule concat_names_filter)
    moreover have "length (filter (\<lambda>f. field_name f = name) (first_match_wins doc entry)) \<le> 1"
      using first_match_wins_length[of doc entry] length_filter_le
      by (meson le_trans)
    ultimately show ?thesis by simp
  next
    case False
    then have "filter (\<lambda>f. field_name f = name) (first_match_wins doc entry) = []"
      by (auto simp: filter_empty_conv dest: first_match_wins_names)
    with Cons show ?thesis by simp
  qed
qed

section \<open>The line scanners filter a list of amounts that does not depend on the accumulated fields\<close>

lemma for_each_append:
  "(\<And>x s. x \<in> set xs \<Longrightarrow> body x s = Inr (s @ g x)) \<Longrightarrow>
     for_each body xs s = Inr (s @ concat (map g xs))"
  by (induction xs arbitrary: s) simp_all

lemma concat_map_concat:
  "concat (map (\<lambda>x. concat (map f (h x))) xs) = concat (map f (concat (map h xs)))"
  by (induction xs) simp_all

lemma positive_values_Cons:
  "positive_values (m # ms) =
     (case parsed_value m of None \<Rightarrow> []
      | Some v \<Rightarrow> if v \<noteq> 0 \<and> v > 0 then [(m, v)] else []) @ positive_values ms"
  by (simp add: positive_values_def)

lemma context_match_step_emit:
  assumes "group1 m \<noteq> None"
  shows "context_match_step self i line keyword m results =
     Inr (results @ concat (map (context_emit (parsed_fields self))
            (map (\<lambda>mv. (i, line, keyword, snd mv)) (positive_values [m]))))"
proof -
  from assms obtain g where g: "group1 m = Some g" by auto
  show ?thesis
  proof (cases "extract_number g")
    case None
    with g show ?thesis
      by (simp add: context_match_step_def positive_values_def parsed_value_def)
  next
    case (Some v)
    with g show ?thesis
      by (simp add: context_match_step_def positive_values_def parsed_value_def
            context_emit_def)
  qed
qed

lemma positive_values_singletons:
  "concat (map (\<lambda>m. map f (positive_values [m])) ms) = map f (positive_values ms)"
  by (induction ms) (simp_all add: positive_values_def)

lemma context_matches_emit:
  assumes "\<forall>m \<in> set ms. group1 m \<noteq> None"
  shows "for_each (context_match_step self i line keyword) ms results =
     Inr (results @ concat (map (context_emit (parsed_fields self))
            (map (\<lambda>mv. (i, line, keyword, snd mv)) (positive_values ms))))"
proof -
  have "for_each (context_match_step self i line keyword) ms results =
      Inr (results @ concat (map (\<lambda>m. concat (map (context_emit (parsed_fields self))
            (map (\<lambda>mv. (i, line, keyword, snd mv)) (positive_values [m])))) ms))"
    by (rule for_each_append, rule context_match_step_emit) (use assms in blast)
  also have "concat (map (\<lambda>m. concat (map (context_emit (parsed_fields self))
            (map (\<lambda>mv. (i, line, keyword, snd mv)) (positive_values [m])))) ms) =
      concat (map (context_emit (parsed_fields self))
        (concat (map (\<lambda>m. map (\<lambda>mv. (i, line, keyword, snd mv)) (positive_values [m])) ms)))"
    by (rule concat_map_concat)
  also have "concat (map (\<lambda>m. map (\<lambda>mv. (i, line, keyword, snd mv)) (positive_values [m])) ms) =
      map (\<lambda>mv. (i, line, keyword, snd mv)) (positive_values ms)"
    by (rule positive_values_singletons)
  finally show ?thesis .
qed

lemma context_keyword_step_emit:
  "context_keyword_step self i line keyword results =
     Inr (results @ concat (map (context_emit (parsed_fields self))
       (if contains keyword (lower line)
        then map (\<lambda>mv. (i, line, keyword, snd mv))
               (positive_values (finditer context_amount_pattern False line))
        else [])))"
proof (cases "contains keyword (lower line)")
  case True
  have cap: "\<forall>m \<in> set (finditer context_amount_pattern False line). group1 m \<noteq> None"
    using finditer_captures[OF context_pattern_captures] by blast
  from context_matches_emit[OF cap] True show ?thesis
    by (simp add: context_keyword_step_def)
next
  case False
  then show ?thesis by (simp add: context_keyword_step_def)
qed

lemma context_line_step_emit:
  "context_line_step self il results =
     Inr (results @ concat (map (context_emit (parsed_fields self))
       (concat (map (\<lambda>keyword.
          if contains keyword (lower (snd il))
          then map (\<lambda>mv. (fst il, snd il, keyword, snd mv))
                 (positive_values (finditer context_amount_pattern False (snd il)))
          else []) keywords_list))))"
proof -
  have "for_each (context_keyword_step self (fst il) (snd il)) keywords_list results =
      Inr (results @ concat (map (\<lambda>keyword. concat (map (context_emit (parsed_fields self))
       (if contains keyword (lower (snd il))
        then map (\<lambda>mv. (fst il, snd il, keyword, snd mv))
               (positive_values (finditer context_amount_pattern False (snd il)))
        else []))) keywords_list))"
    by (rule for_each_append) (rule context_keyword_step_emit)
  then show ?thesis
    unfolding context_line_step_def by (simp only: concat_map_concat)
qed

lemma parse_context_aware_emit:
  "parse_context_aware self =
     Inr (concat (map (context_emit (parsed_fields self)) (context_candidates (lines_f self))))"
proof -
  have "for_each (context_line_step self) (enumerate 1 (lines_f self)) [] =
      Inr ([] @ concat (map (\<lambda>il. concat (map (context_emit (parsed_fields self))
       (concat (map (\<lambda>keyword.
          if contains keyword (lower (snd il))
          then map (\<lambda>mv. (fst il, snd il, keyword, snd mv))
                 (positive_values (finditer context_amount_pattern False (snd il)))
          else []) keywords_list)))) (enumerate 1 (lines_f self))))"
    by (rule for_each_append) (rule context_line_step_emit)
  then show ?thesis
    unfolding parse_context_aware_def context_candidates_def
    by (simp only: concat_map_concat append_Nil)
qed

lemma amount_match_step_emit:
  assumes "group1 m \<noteq> None"
  shows "amount_match_step self i line m results =
     Inr (results @ concat (map (amount_emit (parsed_fields self))
            (map (\<lambda>mv. (i, line, fst mv, snd mv)) (positive_values [m]))))"
proof -
  from assms obtain g where g: "group1 m = Some g" by auto
  show ?thesis
  proof (cases "extract_number g")
    case None
    with g show ?thesis
      by (simp add: amount_match_step_def positive_values_def parsed_value_def)
  next
    case (Some v)
    with g show ?thesis
      by (simp add: amount_match_step_def positive_values_def parsed_value_def
            amount_emit_def)
  qed
qed

lemma amount_matches_emit:
  assumes "\<forall>m \<in> set ms. group1 m \<noteq> None"
  shows "for_each (amount_match_step self i line) ms results =
     Inr (results @ concat (map (amount_emit (parsed_fields self))
            (map (\<lambda>mv. (i, line, fst mv, snd mv)) (positive_values ms))))"
proof -
  have "for_each (amount_match_step self i line) ms results =
      Inr (results @ concat (map (\<lambda>m. concat (map (amount_emit (parsed_fields self))
            (map (\<lambda>mv. (i, line, fst mv, snd mv)) (positive_values [m])))) ms))"
    by (rule for_each_append, rule amount_match_step_emit) (use assms in blast)
  also have "concat (map (\<lambda>m. concat (map (amount_emit (parsed_fields self))
            (map (\<lambda>mv. (i, line, fst mv, snd mv)) (positive_values [m])))) ms) =
      concat (map (amount_emit (parsed_fields self))
        (concat (map (\<lambda>m. map (\<lambda>mv. (i, line, fst mv, snd mv)) (positive_values [m])) ms)))"
    by (rule concat_map_concat)
  also have "concat (map (\<lambda>m. map (\<lambda>mv. (i, line, fst mv, snd mv)) (positive_values [m])) ms) =
      map (\<lambda>mv. (i, line, fst mv, snd mv)) (positive_values ms)"
    by (rule positive_values_singletons)
  finally show ?thesis .
qed

lemma amount_line_step_emit:
  "amount_line_step self il results =
     Inr (results @ concat (map (amount_emit (parsed_fields self))
       (map (\<lambda>mv. (fst il, snd il, fst mv, snd mv))
          (positive_values (finditer all_amount_pattern True (snd il))))))"
proof -
  have cap: "\<forall>m \<in> set (finditer all_amount_pattern True (snd il)). group1 m \<noteq> None"
    using finditer_captures[OF all_pattern_captures] by blast
  from amount_matches_emit[OF cap] show ?thesis
    by (simp only: amount_line_step_def)
qed

lemma parse_all_amounts_emit:
  "parse_all_amounts self =
     Inr (concat (map (amount_emit (parsed_fields self)) (amount_candidates (lines_f self))))"
proof -
  have "for_each (amount_line_step self) (enumerate 1 (lines_f self)) [] =
      Inr ([] @ concat (map (\<lambda>il. concat (map (amount_emit (parsed_fields self))
       (map (\<lambda>mv. (fst il, snd il, fst mv, snd mv))
          (positive_values (finditer all_amount_pattern True (snd il)))))) (enumerate 1 (lines_f self))))"
    by (rule for_each_append) (rule amount_line_step_emit)
  then show ?thesis
    unfolding parse_all_amounts_def amount_candidates_def
    by (simp only: concat_map_concat append_Nil)
qed

section \<open>One call of parse, in parts\<close>

lemma parse_parts:
  "parse self flag now =
     Inr (compile_results
            (self\<lparr>parsed_fields := sort_key (\<lambda>x. - confidence x)
               (parsed_fields self @ pattern_part self @ context_part self @ amount_part self flag)\<rparr>)
            (pattern_part self) (context_part self) now,
          self\<lparr>parsed_fields := sort_key (\<lambda>x. - confidence x)
               (parsed_fields self @ pattern_part self @ context_part self @ amount_part self flag)\<rparr>)"
  by (simp add: parse_def parse_with_patterns_spec parse_context_aware_emit
        parse_all_amounts_emit extend_def sort_by_confidence_def pattern_part_def
        context_part_def amount_part_def Let_def)

lemma result_fields_parse:
  "result_fields (parse self flag now) =
     sort_key (\<lambda>x. - confidence x)
       (parsed_fields self @ pattern_part self @ context_part self @ amount_part self flag)"
  by (simp add: parse_parts result_fields_def)

lemma set_result_fields_parse:
  "set (result_fields (parse self flag now)) =
     set (parsed_fields self) \<union> set (pattern_part self) \<union> set (context_part self)
       \<union> set (amount_part self flag)"
  by (auto simp: result_fields_parse)

lemma length_result_fields_parse:
  "length (result_fields (parse self flag now)) =
     length (parsed_fields self) + length (pattern_part self) + length (context_part self)
       + length (amount_part self flag)"
  by (simp add: result_fields_parse)

text \<open>What is known of a field of each part.\<close>

lemma first_match_wins_field:
  "f \<in> set (first_match_wins doc entry) \<Longrightarrow> \<exists>m v. f = pattern_field doc (fst entry) m v"
  by (auto simp: first_match_wins_def split: option.splits)

lemma pattern_part_field:
  assumes "f \<in> set (pattern_part self)"
  shows "\<exists>name m v. f = pattern_field (document_text self) name m v"
proof -
  from assms obtain entry where
    "f \<in> set (first_match_wins (document_text self) entry)"
    by (auto simp: pattern_part_def spec_pattern_matcher_def)
  from first_match_wins_field[OF this] show ?thesis by blast
qed

lemma positive_values_member:
  "mv \<in> set (positive_values ms) \<Longrightarrow> 0 < snd mv \<and> fst mv \<in> set ms"
  by (auto simp: positive_values_def split: option.splits if_splits)

lemma context_candidates_member:
  assumes "c \<in> set (context_candidates ls)"
  shows "1 \<le> fst c \<and> fst c \<le> length ls \<and> 0 < snd (snd (snd c))
           \<and> fst (snd (snd c)) \<in> set keywords_list \<and> fst (snd c) = ls ! (fst c - 1)"
proof -
  from assms obtain il keyword mv where il: "il \<in> set (enumerate 1 ls)"
    and k: "keyword \<in> set keywords_list"
    and mv: "mv \<in> set (positive_values (finditer context_amount_pattern False (snd il)))"
    and c: "c = (fst il, snd il, keyword, snd mv)"
    by (auto simp: context_candidates_def split: if_splits)
  from il have "1 \<le> fst il \<and> fst il \<le> length ls \<and> snd il = ls ! (fst il - 1)"
    by (auto simp: in_set_enumerate_eq)
  with positive_values_member[OF mv] k c show ?thesis by simp
qed

lemma amount_candidates_member:
  assumes "c \<in> set (amount_candidates ls)"
  shows "1 \<le> fst c \<and> fst c \<le> length ls \<and> 0 < snd (snd (snd c))
           \<and> fst (snd c) = ls ! (fst c - 1)"
proof -
  from assms obtain il mv where il: "il \<in> set (enumerate 1 ls)"
    and mv: "mv \<in> set (positive_values (finditer all_amount_pattern True (snd il)))"
    and c: "c = (fst il, snd il, fst mv, snd mv)"
    by (auto simp: amount_candidates_def)
  from il have "1 \<le> fst il \<and> fst il \<le> length ls \<and> snd il = ls ! (fst il - 1)"
    by (auto simp: in_set_enumerate_eq)
  with positive_values_member[OF mv] c show ?thesis by simp
qed

lemma context_emit_member:
  assumes "f \<in> set (concat (map (context_emit fs) cands))"
  shows "\<exists>c \<in> set cands. \<not> already_extracted fs (fst c) (snd (snd (snd c)))
           \<and> f = context_field (fst (snd (snd c))) (fst c) (fst (snd c)) (snd (snd (snd c)))"
  using assms by (auto simp: context_emit_def split: if_splits)

lemma amount_emit_member:
  assumes "f \<in> set (concat (map (amount_emit fs) cands))"
  shows "\<exists>c \<in> set cands. \<not> already_extracted fs (fst c) (snd (snd (snd c)))
           \<and> f = amount_field (fst c) (fst (snd c)) (fst (snd (snd c))) (snd (snd (snd c)))"
  using assms by (auto simp: amount_emit_def split: if_splits)

lemma context_field_sel [simp]:
  "field_name (context_field keyword i line v) = keyword @ str ''_line_'' @ show_nat i"
  "value_f (context_field keyword i line v) = v"
  "category (context_field keyword i line v) = categorize_field keyword"
  "line_number (context_field keyword i line v) = Some i"
  "extraction_method (context_field keyword i line v) = Some (str ''context_aware'')"
  "context_f (context_field keyword i line v) = strip line"
  by (simp_all add: context_field_def Let_def)

lemma amount_field_sel [simp]:
  "field_name (amount_field i line m v) = str ''amount_line_'' @ show_nat i"
  "value_f (amount_field i line m v) = v"
  "category (amount_field i line m v) = BENEFIT"
  "line_number (amount_field i line m v) = Some i"
  "extraction_method (amount_field i line m v) = Some (str ''all_amounts'')"
  "context_f (amount_field i line m v) = strip line"
  by (simp_all add: amount_field_def)

lemma pattern_field_sel [simp]:
  "value_f (pattern_field doc name m v) = v"
  "category (pattern_field doc name m v) = categorize_field name"
  "line_number (pattern_field doc name m v) = Some (count_newlines (slice doc 0 (m_start m)) + 1)"
  "extraction_method (pattern_field doc name m v) = Some (str ''pattern_matching'')"
  by (simp_all add: pattern_field_def Let_def)

section \<open>The category of a synthesised name\<close>

lemma starts_with_iff: "starts_with w s \<longleftrightarrow> (\<exists>q. s = w @ q)"
proof (induction w s rule: starts_with.induct)
  case (1 s)
  then show ?case by simp
next
  case (2 p ps)
  then show ?case by simp
next
  case (3 p ps c cs)
  then show ?case by auto
qed

lemma contains_iff: "contains w s \<longleftrightarrow> (\<exists>p q. s = p @ w @ q)"
proof (induction s)
  case Nil
  then show ?case by auto
next
  case (Cons c cs)
  have "(\<exists>p q. c # cs = p @ w @ q) \<longleftrightarrow> (\<exists>q. c # cs = w @ q) \<or> (\<exists>p q. cs = p @ w @ q)"
  proof
    assume "\<exists>p q. c # cs = p @ w @ q"
    then obtain p q where pq: "c # cs = p @ w @ q" by blast
    show "(\<exists>q. c # cs = w @ q) \<or> (\<exists>p q. cs = p @ w @ q)"
    proof (cases p)
      case Nil
      with pq show ?thesis by auto
    next
      case (Cons a p')
      with pq have "cs = p' @ w @ q" by simp
      then show ?thesis by blast
    qed
  next
    assume "(\<exists>q. c # cs = w @ q) \<or> (\<exists>p q. cs = p @ w @ q)"
    then show "\<exists>p q. c # cs = p @ w @ q"
    proof
      assume "\<exists>q. c # cs = w @ q"
      then obtain q where "c # cs = [] @ w @ q" by auto
      then show ?thesis by blast
    next
      assume "\<exists>p q. cs = p @ w @ q"
      then obtain p q where "c # cs = (c # p) @ w @ q" by auto
      then show ?thesis by blast
    qed
  qed
  with Cons show ?case by (simp add: starts_with_iff)
qed

lemma contains_separator:
  assumes "x \<notin> set w"
  shows "contains w (a @ x # b) \<longleftrightarrow> contains w a \<or> contains w b"
proof
  assume "contains w (a @ x # b)"
  then obtain p q where pq: "a @ x # b = p @ w @ q" by (auto simp: contains_iff)
  then consider us where "a = p @ us" "us @ x # b = w @ q"
    | us where "a @ us = p" "x # b = us @ w @ q"
    by (auto simp: append_eq_append_conv2)
  then show "contains w a \<or> contains w b"
  proof cases
    case 1
    from 1(2) consider vs where "us = w @ vs"
      | vs where "us @ vs = w" "x # b = vs @ q"
      by (auto simp: append_eq_append_conv2)
    then show ?thesis
    proof cases
      case 1
      with \<open>a = p @ us\<close> have "a = p @ w @ vs" by simp
      then show ?thesis by (auto simp: contains_iff)
    next
      case 2
      show ?thesis
      proof (cases vs)
        case Nil
        with 2 \<open>a = p @ us\<close> have "a = p @ w @ []" by simp
        then show ?thesis unfolding contains_iff by blast
      next
        case (Cons v vs')
        with 2 have "x \<in> set w" by auto
        with assms show ?thesis by simp
      qed
    qed
  next
    case 2
    show ?thesis
    proof (cases us)
      case Nil
      with 2 have wq: "x # b = w @ q" by simp
      show ?thesis
      proof (cases w)
        case Nil
        have "a = [] @ [] @ a" by simp
        then show ?thesis unfolding Nil contains_iff by blast
      next
        case (Cons h t)
        with wq have "x \<in> set w" by auto
        with assms show ?thesis by simp
      qed
    next
      case (Cons u us')
      with 2 have "b = us' @ w @ q" by simp
      then show ?thesis unfolding contains_iff by blast
    qed
  qed
next
  assume "contains w a \<or> contains w b"
  then show "contains w (a @ x # b)"
  proof
    assume "contains w a"
    then obtain p q where "a = p @ w @ q" by (auto simp: contains_iff)
    then have "a @ x # b = p @ w @ (q @ x # b)" by simp
    then show ?thesis unfolding contains_iff by blast
  next
    assume "contains w b"
    then obtain p q where "b = p @ w @ q" by (auto simp: contains_iff)
    then have "a @ x # b = (a @ x # p) @ w @ q" by simp
    then show ?thesis unfolding contains_iff by blast
  qed
qed

lemma contains_needs_head:
  assumes "w \<noteq> []" and "hd w \<notin> set s"
  shows "\<not> contains w s"
proof
  assume "contains w s"
  then obtain p q where "s = p @ w @ q" by (auto simp: contains_iff)
  with assms(1) have "hd w \<in> set s" by (cases w) auto
  with assms(2) show False by simp
qed

lemma show_nat_digits: "c \<in> set (show_nat n) \<Longrightarrow> is_digit c"
proof (induction n arbitrary: c rule: show_nat.induct)
  case (1 n)
  show ?case
  proof (cases "n < 10")
    case True
    with "1.prems" show ?thesis by (simp add: show_nat.simps[of n] is_digit_def)
  next
    case False
    with "1.prems" have "c \<in> set (show_nat (n div 10)) \<or> c = 48 + n mod 10"
      by (auto simp: show_nat.simps[of n])
    then show ?thesis
    proof
      assume "c \<in> set (show_nat (n div 10))"
      with "1.IH"[OF False] show ?thesis by simp
    next
      assume "c = 48 + n mod 10"
      then show ?thesis by (simp add: is_digit_def)
    qed
  qed
qed

lemma lower_show_nat: "lower (show_nat n) = show_nat n"
proof -
  have "\<forall>c \<in> set (show_nat n). is_digit c"
    using show_nat_digits by blast
  then have "\<forall>c \<in> set (show_nat n). lower_char c = c"
    by (auto simp: lower_char_def is_digit_def)
  then show ?thesis unfolding lower_def by (simp add: map_idI)
qed

lemma contains_line_name:
  assumes "95 \<notin> set w" and "w \<noteq> []" and "\<not> is_digit (hd w)"
    and "\<not> contains w (str ''line'')"
  shows "contains w (lower (keyword @ str ''_line_'' @ show_nat i)) = contains w (lower keyword)"
proof -
  have "lower (keyword @ str ''_line_'' @ show_nat i) =
      lower keyword @ 95 # (str ''line'' @ 95 # show_nat i)"
    by (simp add: lower_def lower_show_nat[unfolded lower_def] str_def lower_char_def)
  moreover have "\<not> contains w (show_nat i)"
    using contains_needs_head[OF assms(2)] show_nat_digits assms(3) by blast
  ultimately show ?thesis
    using assms(1,4) by (simp add: contains_separator)
qed

lemma categorize_line_name:
  "categorize_field (keyword @ str ''_line_'' @ show_nat i) = categorize_field keyword"
proof -
  have "\<And>w. w \<in> set (map str [''premium'', ''claim'', ''deductible'', ''copay'', ''tax'',
      ''gst'', ''fee'', ''charge'', ''coverage'', ''insured'', ''benefit'', ''limit'',
      ''maximum'']) \<Longrightarrow>
      contains w (lower (keyword @ str ''_line_'' @ show_nat i)) = contains w (lower keyword)"
    by (rule contains_line_name) (auto simp: str_def is_digit_def)
  then have "list_all (\<lambda>w. contains w (lower (keyword @ str ''_line_'' @ show_nat i)) =
      contains w (lower keyword)) (map str [''premium'', ''claim'', ''deductible'', ''copay'',
      ''tax'', ''gst'', ''fee'', ''charge'', ''coverage'', ''insured'', ''benefit'', ''limit'',
      ''maximum''])"
    unfolding list_all_iff by blast
  then show ?thesis by (simp add: categorize_field_def Let_def)
qed

lemma categorize_amount_line: "categorize_field (str ''amount_line_'' @ show_nat i) = BENEFIT"
proof -
  have "str ''amount_line_'' @ show_nat i = str ''amount'' @ str ''_line_'' @ show_nat i"
    by (simp add: str_def)
  moreover have "categorize_field (str ''amount'') = BENEFIT"
    by (simp add: categorize_field_def str_def lower_def lower_char_def)
  ultimately show ?thesis by (simp only: categorize_line_name)
qed

section \<open>Doubles\<close>

lemma round_double_cases: "round_double x = PosInf \<or> (\<exists>y. round_double x = Finite y)"
  by (simp add: round_double_def Let_def)

lemma to_double_cases:
  "(\<exists>y. to_double x = Finite y) \<or> to_double x = PosInf \<or> to_double x = NegInf"
  using round_double_cases[of x] round_double_cases[of "- x"]
  by (auto simp: to_double_def)

lemma fneg_fneg: "fneg (fneg a) = a"
  by (cases a) simp_all

lemma fabs_fneg: "fabs (fneg a) = fabs a"
  by (cases a) simp_all

lemma to_double_minus: "to_double (- x) = fneg (to_double x)"
  by (simp add: to_double_def fneg_fneg)

lemma floor_rat_numeral:
  "\<lfloor>(numeral a :: rat) / numeral b\<rfloor> = numeral a div numeral b"
  by (metis floor_divide_of_int_eq of_int_numeral)

lemma ceiling_rat_numeral:
  "\<lceil>(numeral a :: rat) / numeral b\<rceil> = - (- numeral a div numeral b)"
  by (metis ceiling_def floor_divide_of_int_eq minus_divide_left of_int_minus of_int_numeral)

lemmas double_defs = to_double_def round_double_def floor_log2_def scale2_def
  round_half_even_def bit_length.simps Let_def floor_rat_numeral ceiling_rat_numeral

lemma hundredth: "to_double (1 / 100) = Finite (5764607523034235 / 2 ^ 59)"
  by (simp add: double_defs)

lemma to_double_0: "to_double 0 = Finite 0"
  by (simp add: to_double_def)

lemma within_tolerance_refl: "finite_double v \<Longrightarrow> within_tolerance v v"
  by (auto simp: finite_double_def within_tolerance_def hundredth to_double_0
        split: pyfloat.splits)

lemma within_tolerance_same_double:
  "to_double a = to_double b \<Longrightarrow> finite_double a \<Longrightarrow> within_tolerance a b"
  using within_tolerance_refl[of a] by (simp add: within_tolerance_def)

lemma within_tolerance_inf:
  assumes "\<not> finite_double v"
  shows "\<not> within_tolerance w v" and "\<not> within_tolerance v w"
proof -
  from assms to_double_cases[of v] have v: "to_double v = PosInf \<or> to_double v = NegInf"
    by (auto simp: finite_double_def)
  from v to_double_cases[of w] show "\<not> within_tolerance w v"
    by (auto simp: within_tolerance_def hundredth)
  from v to_double_cases[of w] show "\<not> within_tolerance v w"
    by (auto simp: within_tolerance_def hundredth)
qed

lemma fabs_fsub_commute:
  assumes "a \<noteq> NaN" and "b \<noteq> NaN"
  shows "fabs (fsub a b) = fabs (fsub b a)"
proof (cases a)
  case (Finite x)
  show ?thesis
  proof (cases b)
    case (Finite y)
    have "to_double (y - x) = fneg (to_double (x - y))"
      using to_double_minus[of "x - y"] by simp
    with \<open>a = Finite x\<close> Finite show ?thesis by (simp add: fabs_fneg)
  qed (use \<open>a = Finite x\<close> assms in simp_all)
next
  case PosInf
  with assms show ?thesis by (cases b) simp_all
next
  case NegInf
  with assms show ?thesis by (cases b) simp_all
next
  case NaN
  with assms show ?thesis by simp
qed

lemma within_tolerance_sym: "within_tolerance a b = within_tolerance b a"
proof -
  have "to_double a \<noteq> NaN" "to_double b \<noteq> NaN"
    using to_double_cases[of a] to_double_cases[of b] by auto
  then show ?thesis unfolding within_tolerance_def by (simp add: fabs_fsub_commute)
qed

section \<open>Lines, and amounts that are already in the accumulated fields\<close>

lemma split_lines_not_Nil: "split_lines s \<noteq> []"
  by (induction s) (auto split: list.splits)

lemma length_split_lines: "length (split_lines s) = count_newlines s + 1"
proof (induction s)
  case Nil
  then show ?case by (simp add: count_newlines_def)
next
  case (Cons c cs)
  then show ?case
    using split_lines_not_Nil[of cs]
    by (cases "split_lines cs") (auto simp: count_newlines_def)
qed

lemma count_newlines_prefix: "count_newlines (slice s 0 n) \<le> count_newlines s"
proof -
  have "s = take n s @ drop n s" by simp
  then have "count_newlines s = count_newlines (take n s) + count_newlines (drop n s)"
    unfolding count_newlines_def by (metis filter_append length_append)
  then show ?thesis by (simp add: slice_def)
qed

lemma already_extracted_mono:
  "set fs \<subseteq> set fs' \<Longrightarrow> already_extracted fs i v \<Longrightarrow> already_extracted fs' i v"
  by (auto simp: already_extracted_def list_ex_iff)

lemma already_extracted_member:
  "f \<in> set fs \<Longrightarrow> line_number f = Some i \<Longrightarrow> value_f f = v \<Longrightarrow> finite_double v \<Longrightarrow>
     already_extracted fs i v"
  using within_tolerance_refl[of v] by (auto simp: already_extracted_def list_ex_iff)

lemma already_extracted_inf: "\<not> finite_double v \<Longrightarrow> \<not> already_extracted fs i v"
  using within_tolerance_inf(1)[of v] by (auto simp: already_extracted_def list_ex_iff)

lemma already_extracted_dedup_match:
  "\<not> already_extracted fs i v \<Longrightarrow> f \<in> set fs \<Longrightarrow> line_number g = Some i \<Longrightarrow>
     value_f g = v \<Longrightarrow> \<not> dedup_match f g"
  by (auto simp: already_extracted_def list_ex_iff dedup_match_def)

lemma dedup_match_sym: "dedup_match f g = dedup_match g f"
  using within_tolerance_sym[of "value_f f" "value_f g"] by (auto simp: dedup_match_def)

text \<open>
  A scanner that runs again, on accumulated fields that hold what it added before,
  adds only the amounts whose float is \<open>inf\<close>.
\<close>

lemma context_emit_again:
  assumes "set fs \<subseteq> set fs'"
    and "set (concat (map (context_emit fs) cands)) \<subseteq> set fs'"
  shows "concat (map (context_emit fs') cands) =
     filter (\<lambda>f. \<not> finite_double (value_f f)) (concat (map (context_emit fs) cands))"
proof -
  have one: "context_emit fs' c = filter (\<lambda>f. \<not> finite_double (value_f f)) (context_emit fs c)"
    if c: "c \<in> set cands" for c
  proof (cases "finite_double (snd (snd (snd c)))")
    case False
    from already_extracted_inf[OF False] show ?thesis
      using False by (simp add: context_emit_def)
  next
    case fin: True
    have "already_extracted fs' (fst c) (snd (snd (snd c)))"
    proof (cases "already_extracted fs (fst c) (snd (snd (snd c)))")
      case True
      from already_extracted_mono[OF assms(1) True] show ?thesis .
    next
      case False
      let ?f = "context_field (fst (snd (snd c))) (fst c) (fst (snd c)) (snd (snd (snd c)))"
      from False c have "?f \<in> set (concat (map (context_emit fs) cands))"
        by (auto simp: context_emit_def)
      with assms(2) have "?f \<in> set fs'" by blast
      then show ?thesis
        by (rule already_extracted_member) (simp_all add: fin)
    qed
    then show ?thesis using fin by (simp add: context_emit_def)
  qed
  have "concat (map (context_emit fs') cands) =
      concat (map (\<lambda>c. filter (\<lambda>f. \<not> finite_double (value_f f)) (context_emit fs c)) cands)"
    using one by (simp cong: map_cong)
  then show ?thesis by (simp add: filter_concat comp_def)
qed

lemma amount_emit_again:
  assumes "set fs \<subseteq> set fs'"
    and "set (concat (map (amount_emit fs) cands)) \<subseteq> set fs'"
  shows "concat (map (amount_emit fs') cands) =
     filter (\<lambda>f. \<not> finite_double (value_f f)) (concat (map (amount_emit fs) cands))"
proof -
  have one: "amount_emit fs' c = filter (\<lambda>f. \<not> finite_double (value_f f)) (amount_emit fs c)"
    if c: "c \<in> set cands" for c
  proof (cases "finite_double (snd (snd (snd c)))")
    case False
    from already_extracted_inf[OF False] show ?thesis
      using False by (simp add: amount_emit_def)
  next
    case fin: True
    have "already_extracted fs' (fst c) (snd (snd (snd c)))"
    proof (cases "already_extracted fs (fst c) (snd (snd (snd c)))")
      case True
      from already_extracted_mono[OF assms(1) True] show ?thesis .
    next
      case False
      let ?f = "amount_field (fst c) (fst (snd c)) (fst (snd (snd c))) (snd (snd (snd c)))"
      from False c have "?f \<in> set (concat (map (amount_emit fs) cands))"
        by (auto simp: amount_emit_def)
      with assms(2) have "?f \<in> set fs'" by blast
      then show ?thesis
        by (rule already_extracted_member) (simp_all add: fin)
    qed
    then show ?thesis using fin by (simp add: amount_emit_def)
  qed
  have "concat (map (amount_emit fs') cands) =
      concat (map (\<lambda>c. filter (\<lambda>f. \<not> finite_double (value_f f)) (amount_emit fs c)) cands)"
    using one by (simp cong: map_cong)
  then show ?thesis by (simp add: filter_concat comp_def)
qed

text \<open>The parser a call of \<open>parse\<close> leaves behind, and what a second call adds to it.\<close>

lemma second_call_parts:
  fixes self :: InsuranceParser and flag :: bool
  defines "self' \<equiv> self\<lparr>parsed_fields := sort_key (\<lambda>x. - confidence x)
       (parsed_fields self @ pattern_part self @ context_part self @ amount_part self flag)\<rparr>"
  shows "pattern_part self' = pattern_part self"
    and "context_part self' = filter (\<lambda>f. \<not> finite_double (value_f f)) (context_part self)"
    and "amount_part self' flag =
           filter (\<lambda>f. \<not> finite_double (value_f f)) (amount_part self flag)"
proof -
  show p: "pattern_part self' = pattern_part self"
    by (simp add: self'_def pattern_part_def)
  have ls: "lines_f self' = lines_f self" by (simp add: self'_def)
  have pf: "set (parsed_fields self') = set (parsed_fields self) \<union> set (pattern_part self)
      \<union> set (context_part self) \<union> set (amount_part self flag)"
    by (auto simp: self'_def)
  show c: "context_part self' =
      filter (\<lambda>f. \<not> finite_double (value_f f)) (context_part self)"
    unfolding context_part_def[of self'] context_part_def[of self] p ls
  proof (rule context_emit_again)
    show "set (parsed_fields self @ pattern_part self)
        \<subseteq> set (parsed_fields self' @ pattern_part self)"
      using pf by auto
    show "set (concat (map (context_emit (parsed_fields self @ pattern_part self))
        (context_candidates (lines_f self)))) \<subseteq> set (parsed_fields self' @ pattern_part self)"
      using pf by (auto simp: context_part_def)
  qed
  show "amount_part self' flag =
      filter (\<lambda>f. \<not> finite_double (value_f f)) (amount_part self flag)"
  proof (cases flag)
    case False
    then show ?thesis by (simp add: amount_part_def)
  next
    case True
    have "concat (map (amount_emit (parsed_fields self' @ pattern_part self @ context_part self'))
        (amount_candidates (lines_f self))) =
      filter (\<lambda>f. \<not> finite_double (value_f f))
        (concat (map (amount_emit (parsed_fields self @ pattern_part self @ context_part self))
          (amount_candidates (lines_f self))))"
    proof (rule amount_emit_again)
      show "set (parsed_fields self @ pattern_part self @ context_part self)
          \<subseteq> set (parsed_fields self' @ pattern_part self @ context_part self')"
        using pf by auto
      show "set (concat (map (amount_emit (parsed_fields self @ pattern_part self @ context_part self))
          (amount_candidates (lines_f self))))
          \<subseteq> set (parsed_fields self' @ pattern_part self @ context_part self')"
        using pf True by (auto simp: amount_part_def)
    qed
    with True show ?thesis by (simp add: amount_part_def[of self'] amount_part_def[of self] p ls)
  qed
qed

section \<open>Three documents, evaluated\<close>

lemma times_iter_numeral:
  "times_iter f mn (numeral k) st =
     concat (map (times_iter f (mn - 1) (pred_numeral k)) (f st)) @ (if mn = 0 then [st] else [])"
  by (simp add: numeral_eq_Suc)

lemma show_nat_small: "n < 10 \<Longrightarrow> show_nat n = [48 + n]"
  by (simp add: show_nat.simps[of n])

lemmas engine_defs = finditer_def attempt_def mk_match_def chr_eq_def lower_char_def
  is_digit_def is_space_def RUPEE_def EURO_def POUND_def str_def search_def
  times_iter_numeral

lemmas program_defs = spec_pattern_matcher_def first_match_wins_def parseable_def
  parsed_value_def extract_number_def python_float_def digits_value_def strip_def
  remove_char_def replace_char_def pattern_field_def slice_def count_newlines_def
  detect_currency_def CURRENCY_SYMBOLS_def calculate_confidence_def indicators_def
  grouped_number_def categorize_field_def lower_def Let_def

lemmas scanner_defs = context_part_def amount_part_def context_candidates_def
  amount_candidates_def positive_values_def context_emit_def amount_emit_def
  already_extracted_def context_field_def amount_field_def keywords_list_def
  context_amount_pattern_def all_amount_pattern_def init_def show_nat_small
  within_tolerance_def double_defs

lemma empty_pattern_part: "pattern_part (init []) = []"
  by (simp add: pattern_part_def init_def FIELD_PATTERNS_def pattern_pieces engine_defs
        program_defs)

lemma empty_context_part: "context_part (init []) = []"
  apply (simp only: context_part_def empty_pattern_part)
  apply (simp add: scanner_defs pattern_pieces engine_defs program_defs)
  done

lemma empty_amount_part: "amount_part (init []) flag = []"
  apply (simp only: amount_part_def empty_pattern_part empty_context_part)
  apply (simp add: scanner_defs pattern_pieces engine_defs program_defs)
  done



lemma sample_pattern_part:
  "pattern_part (init sample_document) =
     [\<lparr>field_name = str ''gst'', value_f = 5, currency = str ''USD'', category = TAX,
       context_f = str ''total fee 7 Tax Amount: 5 $9'', confidence = 7 / 10,
       line_number = Some 2, extraction_method = Some (str ''pattern_matching'')\<rparr>]"
  by (simp add: pattern_part_def init_def sample_document_def FIELD_PATTERNS_def
        pattern_pieces engine_defs program_defs)

lemma sample_context_part:
  "context_part (init sample_document) =
     [\<lparr>field_name = str ''fee_line_1'', value_f = 7, currency = str ''INR'', category = FEE,
       context_f = str ''total fee 7'', confidence = 14 / 25,
       line_number = Some 1, extraction_method = Some (str ''context_aware'')\<rparr>,
      \<lparr>field_name = str ''total_line_1'', value_f = 7, currency = str ''INR'',
       category = BENEFIT, context_f = str ''total fee 7'', confidence = 14 / 25,
       line_number = Some 1, extraction_method = Some (str ''context_aware'')\<rparr>]"
  apply (simp only: context_part_def sample_pattern_part)
  apply (simp add: sample_document_def scanner_defs pattern_pieces engine_defs program_defs)
  done

lemma sample_amount_part:
  "amount_part (init sample_document) True =
     [\<lparr>field_name = str ''amount_line_3'', value_f = 9, currency = str ''USD'',
       category = BENEFIT, context_f = str ''$9'', confidence = 1 / 2,
       line_number = Some 3, extraction_method = Some (str ''all_amounts'')\<rparr>]"
  apply (simp only: amount_part_def sample_pattern_part sample_context_part)
  apply (simp add: sample_document_def scanner_defs pattern_pieces engine_defs program_defs)
  done

section \<open>What holds of every field a strategy adds\<close>

text \<open>What holds of every field of each part.\<close>

lemma pattern_part_facts:
  assumes "f \<in> set (pattern_part self)"
  shows "\<exists>name m v. f = pattern_field (document_text self) name m v"
    and "category f = categorize_field (field_name f)"
    and "extraction_method f = Some (str ''pattern_matching'')"
    and "\<exists>n. line_number f = Some n \<and> 1 \<le> n
           \<and> n \<le> length (split_lines (document_text self))"
proof -
  from pattern_part_field[OF assms] obtain name m v where
    f: "f = pattern_field (document_text self) name m v" by blast
  then show "\<exists>name m v. f = pattern_field (document_text self) name m v" by blast
  from f show "category f = categorize_field (field_name f)" by simp
  from f show "extraction_method f = Some (str ''pattern_matching'')" by simp
  from f count_newlines_prefix[of "document_text self" "m_start m"]
  show "\<exists>n. line_number f = Some n \<and> 1 \<le> n \<and> n \<le> length (split_lines (document_text self))"
    by (simp add: length_split_lines)
qed

lemma context_part_facts:
  assumes "f \<in> set (concat (map (context_emit fs) (context_candidates ls)))"
  shows "category f = categorize_field (field_name f)"
    and "\<exists>keyword \<in> set keywords_list. \<exists>i. field_name f = keyword @ str ''_line_'' @ show_nat i
           \<and> category f = categorize_field keyword"
    and "extraction_method f = Some (str ''context_aware'')"
    and "\<exists>i. line_number f = Some i \<and> 1 \<le> i \<and> i \<le> length ls
           \<and> context_f f = strip (ls ! (i - 1))"
    and "0 < value_f f"
    and "\<forall>g \<in> set fs. \<not> dedup_match g f"
proof -
  from context_emit_member[OF assms] obtain c where c: "c \<in> set (context_candidates ls)"
    and n: "\<not> already_extracted fs (fst c) (snd (snd (snd c)))"
    and f: "f = context_field (fst (snd (snd c))) (fst c) (fst (snd c)) (snd (snd (snd c)))"
    by blast
  note m = context_candidates_member[OF c]
  from f show "category f = categorize_field (field_name f)"
    by (simp add: categorize_line_name)
  from f m show "\<exists>keyword \<in> set keywords_list. \<exists>i.
      field_name f = keyword @ str ''_line_'' @ show_nat i \<and> category f = categorize_field keyword"
    by auto
  from f show "extraction_method f = Some (str ''context_aware'')" by simp
  from f m show "\<exists>i. line_number f = Some i \<and> 1 \<le> i \<and> i \<le> length ls
      \<and> context_f f = strip (ls ! (i - 1))" by simp
  from f m show "0 < value_f f" by simp
  from f n show "\<forall>g \<in> set fs. \<not> dedup_match g f"
    using already_extracted_dedup_match[of fs "fst c" "snd (snd (snd c))" _ f] by simp
qed

lemma amount_part_facts:
  assumes "f \<in> set (concat (map (amount_emit fs) (amount_candidates ls)))"
  shows "category f = categorize_field (field_name f)"
    and "category f = BENEFIT \<and> (\<exists>i. field_name f = str ''amount_line_'' @ show_nat i)"
    and "extraction_method f = Some (str ''all_amounts'')"
    and "\<exists>i. line_number f = Some i \<and> 1 \<le> i \<and> i \<le> length ls
           \<and> context_f f = strip (ls ! (i - 1))"
    and "0 < value_f f"
    and "\<forall>g \<in> set fs. \<not> dedup_match g f"
proof -
  from amount_emit_member[OF assms] obtain c where c: "c \<in> set (amount_candidates ls)"
    and n: "\<not> already_extracted fs (fst c) (snd (snd (snd c)))"
    and f: "f = amount_field (fst c) (fst (snd c)) (fst (snd (snd c))) (snd (snd (snd c)))"
    by blast
  note m = amount_candidates_member[OF c]
  from f show "category f = categorize_field (field_name f)"
    by (simp add: categorize_amount_line)
  from f show "category f = BENEFIT \<and> (\<exists>i. field_name f = str ''amount_line_'' @ show_nat i)"
    by auto
  from f show "extraction_method f = Some (str ''all_amounts'')" by simp
  from f m show "\<exists>i. line_number f = Some i \<and> 1 \<le> i \<and> i \<le> length ls
      \<and> context_f f = strip (ls ! (i - 1))" by simp
  from f m show "0 < value_f f" by simp
  from f n show "\<forall>g \<in> set fs. \<not> dedup_match g f"
    using already_extracted_dedup_match[of fs "fst c" "snd (snd (snd c))" _ f] by simp
qed

lemma methods_differ:
  "str ''pattern_matching'' \<noteq> str ''context_aware''"
  "str ''pattern_matching'' \<noteq> str ''all_amounts''"
  "str ''context_aware'' \<noteq> str ''all_amounts''"
  by (simp_all add: str_def)

lemma fresh_parts:
  "set (result_fields (parse (init doc) flag now)) =
     set (pattern_part (init doc)) \<union> set (context_part (init doc))
       \<union> set (amount_part (init doc) flag)"
  by (simp add: set_result_fields_parse init_def)

lemma amount_part_cases:
  "f \<in> set (amount_part self flag) \<Longrightarrow>
     f \<in> set (concat (map (amount_emit (parsed_fields self @ pattern_part self @ context_part self))
            (amount_candidates (lines_f self))))"
  by (cases flag) (simp_all add: amount_part_def)

lemma scanned_inf_parts:
  "f \<in> set (pattern_part self) \<Longrightarrow> \<not> scanned_inf f"
  "f \<in> set (context_part self) \<Longrightarrow> scanned_inf f = (\<not> finite_double (value_f f))"
  "f \<in> set (amount_part self flag) \<Longrightarrow> scanned_inf f = (\<not> finite_double (value_f f))"
  using pattern_part_facts(3)[of f self]
    context_part_facts(3)[of f "parsed_fields self @ pattern_part self" "lines_f self"]
    amount_part_facts(3)[OF amount_part_cases, of f self flag] methods_differ
  by (auto simp: scanned_inf_def context_part_def)

lemma filter_scanned_inf_parts:
  "filter scanned_inf (pattern_part self) = []"
  "filter scanned_inf (context_part self) =
     filter (\<lambda>f. \<not> finite_double (value_f f)) (context_part self)"
  "filter scanned_inf (amount_part self flag) =
     filter (\<lambda>f. \<not> finite_double (value_f f)) (amount_part self flag)"
proof -
  show "filter scanned_inf (pattern_part self) = []"
    using scanned_inf_parts(1) by (auto simp: filter_empty_conv)
  show "filter scanned_inf (context_part self) =
      filter (\<lambda>f. \<not> finite_double (value_f f)) (context_part self)"
    by (rule filter_cong[OF refl]) (rule scanned_inf_parts(2))
  show "filter scanned_inf (amount_part self flag) =
      filter (\<lambda>f. \<not> finite_double (value_f f)) (amount_part self flag)"
    by (rule filter_cong[OF refl]) (rule scanned_inf_parts(3))
qed

lemma length_filter_sort_key:
  "length (filter P (sort_key k xs)) = length (filter P xs)"
  by (simp add: filter_sort)

text \<open>
  After a first call on a new parser, a second call adds the pattern matcher's fields
  and the scanners' fields whose value is \<open>inf\<close>.
\<close>

lemma second_call_new_parser:
  fixes doc :: pystr and flag :: bool
  defines "s1 \<equiv> (init doc)\<lparr>parsed_fields := sort_key (\<lambda>x. - confidence x)
       (parsed_fields (init doc) @ pattern_part (init doc) @ context_part (init doc)
          @ amount_part (init doc) flag)\<rparr>"
  shows "length (pattern_part s1) = length (pattern_part (init doc))"
    and "length (context_part s1) + length (amount_part s1 flag) =
           length (filter scanned_inf (parsed_fields s1))"
    and "length (context_part s1) =
           length (filter (\<lambda>f. extraction_method f = Some (str ''context_aware'')
                              \<and> \<not> finite_double (value_f f)) (parsed_fields s1))"
proof -
  let ?P = "pattern_part (init doc)" and ?C = "context_part (init doc)"
    and ?A = "amount_part (init doc) flag"
  have e: "parsed_fields (init doc) = []" by (simp add: init_def)
  have parts: "pattern_part s1 = ?P"
    "context_part s1 = filter (\<lambda>f. \<not> finite_double (value_f f)) ?C"
    "amount_part s1 flag = filter (\<lambda>f. \<not> finite_double (value_f f)) ?A"
    unfolding s1_def by (rule second_call_parts)+
  show "length (pattern_part s1) = length ?P" by (simp add: parts)
  have "length (filter scanned_inf (parsed_fields s1)) =
      length (filter scanned_inf (?P @ ?C @ ?A))"
    unfolding s1_def by (simp add: e length_filter_sort_key del: filter_append)
  then show "length (context_part s1) + length (amount_part s1 flag) =
      length (filter scanned_inf (parsed_fields s1))"
    by (simp add: parts filter_scanned_inf_parts)
  let ?Q = "\<lambda>f. extraction_method f = Some (str ''context_aware'') \<and> \<not> finite_double (value_f f)"
  have qp: "filter ?Q ?P = []"
    using pattern_part_facts(3)[of _ "init doc"] methods_differ
    by (auto simp: filter_empty_conv)
  have qa: "filter ?Q ?A = []"
    using amount_part_facts(3)[OF amount_part_cases, of _ "init doc" flag] methods_differ
    by (auto simp: filter_empty_conv)
  have qc: "filter ?Q ?C = filter (\<lambda>f. \<not> finite_double (value_f f)) ?C"
    using context_part_facts(3)[of _ "parsed_fields (init doc) @ ?P" "lines_f (init doc)"]
    by (auto simp: context_part_def intro: filter_cong)
  have "length (filter ?Q (parsed_fields s1)) = length (filter ?Q (?P @ ?C @ ?A))"
    unfolding s1_def by (simp add: e length_filter_sort_key del: filter_append)
  then show "length (context_part s1) = length (filter ?Q (parsed_fields s1))"
    by (simp add: parts qp qa qc)
qed

lemma length_second_call:
  "length (result_fields (parse_again (parse (init doc) flag now) flag now')) =
     length (result_fields (parse (init doc) flag now)) + length (pattern_part (init doc))
       + length (filter scanned_inf (result_fields (parse (init doc) flag now)))"
proof -
  let ?s1 = "(init doc)\<lparr>parsed_fields := sort_key (\<lambda>x. - confidence x)
       (parsed_fields (init doc) @ pattern_part (init doc) @ context_part (init doc)
          @ amount_part (init doc) flag)\<rparr>"
  have again: "parse_again (parse (init doc) flag now) flag now' = parse ?s1 flag now'"
    by (simp add: parse_again_def parse_parts[of "init doc"])
  have first: "result_fields (parse (init doc) flag now) = parsed_fields ?s1"
    by (simp add: result_fields_parse)
  have "length (result_fields (parse ?s1 flag now')) =
      length (parsed_fields ?s1) + length (pattern_part ?s1)
        + (length (context_part ?s1) + length (amount_part ?s1 flag))"
    unfolding length_result_fields_parse[of ?s1] by simp
  also have "\<dots> = length (parsed_fields ?s1) + length (pattern_part (init doc))
      + length (filter scanned_inf (parsed_fields ?s1))"
    by (simp only: second_call_new_parser(1,2))
  finally show ?thesis using again first by simp
qed

section \<open>The pattern matcher and totality\<close>

text \<open>
  C3.  For every document the pattern matcher adds at most one field for each name of
  the pattern table: it is the matcher the specification describes, which goes through
  the patterns of a name in their order and, at the first pattern with a match whose
  number parses, keeps the first such match in document order and tries no further
  pattern of that name.
\<close>

theorem pattern_matcher_first_match_wins:
  "parse_with_patterns self = Inr (spec_pattern_matcher (document_text self))
   \<and> (\<forall>name. length (filter (\<lambda>f. field_name f = name)
                  (spec_pattern_matcher (document_text self))) \<le> 1)"
  using parse_with_patterns_spec[of self] concat_one_per_name[OF table_distinct]
  by (simp add: spec_pattern_matcher_def)

text \<open>
  C6.  The extraction is total: \<open>parse\<close> returns a result for every parser, hence for
  every document and flag; for the empty document the result has no field and both
  summary maps are empty; a match whose captured number does not parse is passed over
  by each of the three strategies.
\<close>

theorem parse_total:
  "(\<exists>r s. parse self flag now = Inr (r, s))
   \<and> (\<exists>r s. parse (init []) flag now = Inr (r, s)
          \<and> total_fields_extracted (metadata r) = 0 \<and> fields_f r = []
          \<and> by_category (summary r) = Map.empty \<and> by_currency (summary r) = Map.empty)
   \<and> (group1 m = Some g \<and> extract_number g = None \<longrightarrow>
          match_loop doc name (m # ms) results = match_loop doc name ms results
          \<and> context_match_step self i line keyword m results = Inr results
          \<and> amount_match_step self i line m results = Inr results)"
proof (intro conjI impI)
  show "\<exists>r s. parse self flag now = Inr (r, s)" by (simp add: parse_parts)
  show "\<exists>r s. parse (init []) flag now = Inr (r, s)
      \<and> total_fields_extracted (metadata r) = 0 \<and> fields_f r = []
      \<and> by_category (summary r) = Map.empty \<and> by_currency (summary r) = Map.empty"
    by (simp add: parse_parts empty_pattern_part empty_context_part empty_amount_part
          compile_results_def generate_summary_def)
      (simp add: init_def)
next
  assume a: "group1 m = Some g \<and> extract_number g = None"
  then show "match_loop doc name (m # ms) results = match_loop doc name ms results" by simp
  from a show "context_match_step self i line keyword m results = Inr results"
    by (simp add: context_match_step_def)
  from a show "amount_match_step self i line m results = Inr results"
    by (simp add: amount_match_step_def)
qed

theorem parse_total_witness:
  "group1 \<lparr>m_start = 0, m_end = 1, group0 = str '','', group1 = Some (str '','')\<rparr>
     = Some (str '','')
   \<and> extract_number (str '','') = None
   \<and> match_loop [] [] [\<lparr>m_start = 0, m_end = 1, group0 = str '','',
         group1 = Some (str '','')\<rparr>] [] = Inr []
   \<and> (\<exists>r s. parse (init (str '','')) False [] = Inr (r, s))"
  using parse_total[where self = "init (str '','')" and flag = False and now = "[]"
      and m = "\<lparr>m_start = 0, m_end = 1, group0 = str '','', group1 = Some (str '','')\<rparr>"
      and g = "str '',''" and doc = "[]" and name = "[]" and ms = "[]" and results = "[]"]
  by (simp add: extract_number_def python_float_def strip_def remove_char_def str_def)

section \<open>Line numbers\<close>

text \<open>
  C9.  Every field a strategy adds has a line number, between 1 and the number of lines
  of the document.  The pattern matcher's is one plus the number of newlines before the
  start of the match; a line scanner's is the 1-based index of the line the field was
  found in.  \<open>fs\<close> is whatever the parser has accumulated before.
\<close>

theorem line_numbers_in_range:
  "(\<exists>ps. parse_with_patterns ((init doc)\<lparr>parsed_fields := fs\<rparr>) = Inr ps
      \<and> (\<forall>f \<in> set ps. \<exists>name m v. f = pattern_field doc name m v
            \<and> line_number f = Some (count_newlines (slice doc 0 (m_start m)) + 1)
            \<and> 1 \<le> count_newlines (slice doc 0 (m_start m)) + 1
            \<and> count_newlines (slice doc 0 (m_start m)) + 1 \<le> length (split_lines doc)))
   \<and> (\<exists>cs. parse_context_aware ((init doc)\<lparr>parsed_fields := fs\<rparr>) = Inr cs
      \<and> (\<forall>f \<in> set cs. \<exists>i. line_number f = Some i \<and> 1 \<le> i \<and> i \<le> length (split_lines doc)
            \<and> context_f f = strip (split_lines doc ! (i - 1))))
   \<and> (\<exists>as. parse_all_amounts ((init doc)\<lparr>parsed_fields := fs\<rparr>) = Inr as
      \<and> (\<forall>f \<in> set as. \<exists>i. line_number f = Some i \<and> 1 \<le> i \<and> i \<le> length (split_lines doc)
            \<and> context_f f = strip (split_lines doc ! (i - 1))))
   \<and> (\<forall>f \<in> set (result_fields (parse (init doc) flag now)).
         \<exists>n. line_number f = Some n \<and> 1 \<le> n \<and> n \<le> length (split_lines doc))"
proof (intro conjI)
  let ?self = "(init doc)\<lparr>parsed_fields := fs\<rparr>"
  have d: "document_text ?self = doc" and l: "lines_f ?self = split_lines doc"
    by (simp_all add: init_def)
  have "\<forall>f \<in> set (pattern_part ?self). \<exists>name m v. f = pattern_field doc name m v
      \<and> line_number f = Some (count_newlines (slice doc 0 (m_start m)) + 1)
      \<and> 1 \<le> count_newlines (slice doc 0 (m_start m)) + 1
      \<and> count_newlines (slice doc 0 (m_start m)) + 1 \<le> length (split_lines doc)"
  proof
    fix f assume "f \<in> set (pattern_part ?self)"
    from pattern_part_field[OF this] d obtain name m v where
      f: "f = pattern_field doc name m v" by auto
    have "line_number f = Some (count_newlines (slice doc 0 (m_start m)) + 1)"
      using f by simp
    moreover have "count_newlines (slice doc 0 (m_start m)) + 1 \<le> length (split_lines doc)"
      using count_newlines_prefix[of doc "m_start m"] by (simp add: length_split_lines)
    ultimately show "\<exists>name m v. f = pattern_field doc name m v
      \<and> line_number f = Some (count_newlines (slice doc 0 (m_start m)) + 1)
      \<and> 1 \<le> count_newlines (slice doc 0 (m_start m)) + 1
      \<and> count_newlines (slice doc 0 (m_start m)) + 1 \<le> length (split_lines doc)"
      using f by auto
  qed
  then show "\<exists>ps. parse_with_patterns ?self = Inr ps
      \<and> (\<forall>f \<in> set ps. \<exists>name m v. f = pattern_field doc name m v
            \<and> line_number f = Some (count_newlines (slice doc 0 (m_start m)) + 1)
            \<and> 1 \<le> count_newlines (slice doc 0 (m_start m)) + 1
            \<and> count_newlines (slice doc 0 (m_start m)) + 1 \<le> length (split_lines doc))"
    by (simp add: parse_with_patterns_spec pattern_part_def)
  show "\<exists>cs. parse_context_aware ?self = Inr cs
      \<and> (\<forall>f \<in> set cs. \<exists>i. line_number f = Some i \<and> 1 \<le> i \<and> i \<le> length (split_lines doc)
            \<and> context_f f = strip (split_lines doc ! (i - 1)))"
    unfolding parse_context_aware_emit l using context_part_facts(4) by blast
  show "\<exists>as. parse_all_amounts ?self = Inr as
      \<and> (\<forall>f \<in> set as. \<exists>i. line_number f = Some i \<and> 1 \<le> i \<and> i \<le> length (split_lines doc)
            \<and> context_f f = strip (split_lines doc ! (i - 1)))"
    unfolding parse_all_amounts_emit l using amount_part_facts(4) by blast
  show "\<forall>f \<in> set (result_fields (parse (init doc) flag now)).
      \<exists>n. line_number f = Some n \<and> 1 \<le> n \<and> n \<le> length (split_lines doc)"
  proof
    fix f assume "f \<in> set (result_fields (parse (init doc) flag now))"
    then consider "f \<in> set (pattern_part (init doc))" | "f \<in> set (context_part (init doc))"
      | "f \<in> set (amount_part (init doc) flag)"
      unfolding fresh_parts by blast
    then show "\<exists>n. line_number f = Some n \<and> 1 \<le> n \<and> n \<le> length (split_lines doc)"
    proof cases
      case 1
      from pattern_part_facts(4)[OF 1] show ?thesis by (simp add: init_def)
    next
      case 2
      then show ?thesis
        unfolding context_part_def using context_part_facts(4)[of f _ "lines_f (init doc)"]
        by (auto simp: init_def)
    next
      case 3
      from amount_part_cases[OF 3] show ?thesis
        using amount_part_facts(4)[of f _ "lines_f (init doc)"]
        by (auto simp: init_def)
    qed
  qed
qed

lemma sample_result:
  "result_fields (parse (init sample_document) True now) =
     pattern_part (init sample_document) @ context_part (init sample_document)
       @ amount_part (init sample_document) True"
  by (simp add: result_fields_parse sample_pattern_part sample_context_part
        sample_amount_part) (simp add: init_def)

lemma sample_lines: "length (split_lines sample_document) = 3"
  by (simp add: sample_document_def str_def)

theorem line_numbers_in_range_witness:
  "length (result_fields (parse (init sample_document) True [])) = 4
   \<and> length (split_lines sample_document) = 3
   \<and> map line_number (result_fields (parse (init sample_document) True []))
       = [Some 2, Some 1, Some 1, Some 3]
   \<and> list_all (\<lambda>f. \<exists>n. line_number f = Some n \<and> 1 \<le> n
                  \<and> n \<le> length (split_lines sample_document))
       (result_fields (parse (init sample_document) True []))"
  using line_numbers_in_range[where doc = sample_document and fs = "[]" and flag = True and now = "[]"]
  by (simp add: sample_result sample_pattern_part sample_context_part sample_amount_part
        sample_lines)

section \<open>Zero values and categories\<close>




text \<open>
  C5.  Every field a strategy adds has the category \<open>categorize_field\<close> gives its name,
  where \<open>categorize_field\<close> applies the rules premium, claim, deductible or copay, tax
  or gst, fee or charge, coverage or insured or benefit, limit or maximum to the
  lower-cased name, in this order, and falls back to BENEFIT.  A field of the context
  scanner is named \<open>keyword_line_N\<close> and categorised from the keyword; a field of the
  scan for all amounts is named \<open>amount_line_N\<close> and has the category BENEFIT.
\<close>

theorem category_from_name:
  "(\<exists>ps. parse_with_patterns self = Inr ps
      \<and> (\<forall>f \<in> set ps. category f = categorize_field (field_name f)))
   \<and> (\<exists>cs. parse_context_aware self = Inr cs
      \<and> (\<forall>f \<in> set cs. category f = categorize_field (field_name f)
            \<and> (\<exists>keyword \<in> set keywords_list. \<exists>i.
                  field_name f = keyword @ str ''_line_'' @ show_nat i
                  \<and> category f = categorize_field keyword)))
   \<and> (\<exists>as. parse_all_amounts self = Inr as
      \<and> (\<forall>f \<in> set as. category f = categorize_field (field_name f) \<and> category f = BENEFIT
            \<and> (\<exists>i. field_name f = str ''amount_line_'' @ show_nat i)))
   \<and> (\<forall>f \<in> set (result_fields (parse (init doc) flag now)).
         category f = categorize_field (field_name f))
   \<and> categorize_field name =
       (if contains (str ''premium'') (lower name) then PREMIUM
        else if contains (str ''claim'') (lower name) then CLAIM
        else if contains (str ''deductible'') (lower name)
                \<or> contains (str ''copay'') (lower name) then DEDUCTIBLE
        else if contains (str ''tax'') (lower name)
                \<or> contains (str ''gst'') (lower name) then TAX
        else if contains (str ''fee'') (lower name)
                \<or> contains (str ''charge'') (lower name) then FEE
        else if contains (str ''coverage'') (lower name)
                \<or> contains (str ''insured'') (lower name)
                \<or> contains (str ''benefit'') (lower name) then COVERAGE
        else if contains (str ''limit'') (lower name)
                \<or> contains (str ''maximum'') (lower name) then LIMIT
        else BENEFIT)"
proof (intro conjI)
  show "\<exists>ps. parse_with_patterns self = Inr ps
      \<and> (\<forall>f \<in> set ps. category f = categorize_field (field_name f))"
    using pattern_part_facts(2)[of _ self]
    by (simp add: parse_with_patterns_spec pattern_part_def)
  show "\<exists>cs. parse_context_aware self = Inr cs
      \<and> (\<forall>f \<in> set cs. category f = categorize_field (field_name f)
            \<and> (\<exists>keyword \<in> set keywords_list. \<exists>i.
                  field_name f = keyword @ str ''_line_'' @ show_nat i
                  \<and> category f = categorize_field keyword))"
    unfolding parse_context_aware_emit using context_part_facts(1,2) by blast
  show "\<exists>as. parse_all_amounts self = Inr as
      \<and> (\<forall>f \<in> set as. category f = categorize_field (field_name f) \<and> category f = BENEFIT
            \<and> (\<exists>i. field_name f = str ''amount_line_'' @ show_nat i))"
    unfolding parse_all_amounts_emit using amount_part_facts(1,2) by blast
  show "\<forall>f \<in> set (result_fields (parse (init doc) flag now)).
         category f = categorize_field (field_name f)"
  proof
    fix f assume f: "f \<in> set (result_fields (parse (init doc) flag now))"
    from f consider "f \<in> set (pattern_part (init doc))" | "f \<in> set (context_part (init doc))"
      | "f \<in> set (amount_part (init doc) flag)"
      unfolding fresh_parts by blast
    then show "category f = categorize_field (field_name f)"
    proof cases
      case 1
      then show ?thesis by (rule pattern_part_facts(2))
    next
      case 2
      then show ?thesis unfolding context_part_def by (rule context_part_facts(1))
    next
      case 3
      from amount_part_cases[OF 3] show ?thesis by (rule amount_part_facts(1))
    qed
  qed
  show "categorize_field name =
       (if contains (str ''premium'') (lower name) then PREMIUM
        else if contains (str ''claim'') (lower name) then CLAIM
        else if contains (str ''deductible'') (lower name)
                \<or> contains (str ''copay'') (lower name) then DEDUCTIBLE
        else if contains (str ''tax'') (lower name)
                \<or> contains (str ''gst'') (lower name) then TAX
        else if contains (str ''fee'') (lower name)
                \<or> contains (str ''charge'') (lower name) then FEE
        else if contains (str ''coverage'') (lower name)
                \<or> contains (str ''insured'') (lower name)
                \<or> contains (str ''benefit'') (lower name) then COVERAGE
        else if contains (str ''limit'') (lower name)
                \<or> contains (str ''maximum'') (lower name) then LIMIT
        else BENEFIT)"
    by (simp add: categorize_field_def Let_def)
qed

theorem category_from_name_witness:
  "map field_name (result_fields (parse (init sample_document) True []))
     = [str ''gst'', str ''fee_line_1'', str ''total_line_1'', str ''amount_line_3'']
   \<and> map category (result_fields (parse (init sample_document) True []))
     = [TAX, FEE, BENEFIT, BENEFIT]
   \<and> list_all (\<lambda>f. category f = categorize_field (field_name f))
       (result_fields (parse (init sample_document) True []))"
  using category_from_name[where doc = sample_document and flag = True and now = "[]"
      and self = "init sample_document" and name = "[]"]
  by (simp add: sample_result sample_pattern_part sample_context_part sample_amount_part
        list_all_iff)

section \<open>Duplicates, and a second call\<close>

lemma sample_result_no_amounts:
  "result_fields (parse (init sample_document) False now) =
     pattern_part (init sample_document) @ context_part (init sample_document)"
  by (simp add: result_fields_parse sample_pattern_part sample_context_part amount_part_def)
     (simp add: init_def)

lemma sample_line_pattern_part:
  "pattern_part (init sample_line) =
     [\<lparr>field_name = str ''gst'', value_f = 5, currency = str ''INR'', category = TAX,
       context_f = str ''Tax Amount: 5 fee 7'', confidence = 7 / 10,
       line_number = Some 1, extraction_method = Some (str ''pattern_matching'')\<rparr>]"
  by (simp add: pattern_part_def init_def sample_line_def FIELD_PATTERNS_def
        pattern_pieces engine_defs program_defs)

lemma sample_line_context_part:
  "context_part (init sample_line) =
     [\<lparr>field_name = str ''fee_line_1'', value_f = 7, currency = str ''INR'', category = FEE,
       context_f = str ''Tax Amount: 5 fee 7'', confidence = 14 / 25,
       line_number = Some 1, extraction_method = Some (str ''context_aware'')\<rparr>,
      \<lparr>field_name = str ''tax_line_1'', value_f = 7, currency = str ''INR'', category = TAX,
       context_f = str ''Tax Amount: 5 fee 7'', confidence = 14 / 25,
       line_number = Some 1, extraction_method = Some (str ''context_aware'')\<rparr>,
      \<lparr>field_name = str ''amount_line_1'', value_f = 7, currency = str ''INR'',
       category = BENEFIT, context_f = str ''Tax Amount: 5 fee 7'', confidence = 14 / 25,
       line_number = Some 1, extraction_method = Some (str ''context_aware'')\<rparr>]"
  apply (simp only: context_part_def sample_line_pattern_part)
  apply (simp add: sample_line_def scanner_defs pattern_pieces engine_defs program_defs)
  done

lemma sample_line_result:
  "result_fields (parse (init sample_line) False now) =
     pattern_part (init sample_line) @ context_part (init sample_line)"
  by (simp add: result_fields_parse sample_line_pattern_part sample_line_context_part
        amount_part_def)
     (simp add: init_def)

lemma small_values_finite: "finite_double 5" "finite_double 7" "finite_double 9"
  by (simp_all add: finite_double_def double_defs)

text \<open>A number of 310 digits has the float \<open>inf\<close>.\<close>

lemma nines_overflow: "\<not> finite_double (10 ^ 310 - 1)"
  by (simp add: finite_double_def double_defs)

text \<open>
  C1 as stated fails: on the sample document the context scanner adds
  \<open>fee_line_1\<close> and \<open>total_line_1\<close>, both at line 1 with value 7, in one pass.
\<close>

theorem no_duplicates_counterexample:
  "\<not> no_duplicates (result_fields (parse (init sample_document) False []))"
  by (simp add: sample_result_no_amounts sample_pattern_part sample_context_part
        same_place_def)

text \<open>
  C1, amended.  For every document and a single call of \<open>parse\<close> on a new parser, no two
  fields that different strategies added are at the same line with values that the
  code's test \<open>abs(a - b) < 0.01\<close> accepts: a line scanner passes over an amount when the
  fields accumulated before its pass have one at that line for which the test holds.
  The test is computed in double precision, and it fails when a value is \<open>inf\<close>; so
  the two fields never have the same line and the same value unless the value
  overflowed to \<open>inf\<close>.  The fields a scanner adds within its own pass are not compared
  with one another.
\<close>

theorem no_duplicates_across_strategies:
  assumes "f \<in> set (result_fields (parse (init doc) flag now))"
    and "g \<in> set (result_fields (parse (init doc) flag now))"
    and "extraction_method f \<noteq> extraction_method g"
  shows "\<not> dedup_match f g
    \<and> (finite_double (value_f f) \<longrightarrow> line_number f = line_number g
         \<longrightarrow> to_double (value_f f) \<noteq> to_double (value_f g))"
proof -
  let ?P = "pattern_part (init doc)" and ?C = "context_part (init doc)"
    and ?A = "amount_part (init doc) flag"
  have pf: "parsed_fields (init doc) = []" by (simp add: init_def)
  have strategy: "(h \<in> set ?P \<longrightarrow> extraction_method h = Some (str ''pattern_matching''))
      \<and> (h \<in> set ?C \<longrightarrow> extraction_method h = Some (str ''context_aware''))
      \<and> (h \<in> set ?A \<longrightarrow> extraction_method h = Some (str ''all_amounts''))" for h
    using pattern_part_facts(3)[of h "init doc"]
      context_part_facts(3)[of h "parsed_fields (init doc) @ ?P" "lines_f (init doc)"]
      amount_part_facts(3)[OF amount_part_cases, of h "init doc" flag]
    by (auto simp: context_part_def)
  have pc: "\<not> dedup_match p c" if "p \<in> set ?P" "c \<in> set ?C" for p c
    using context_part_facts(6)[of c "parsed_fields (init doc) @ ?P" "lines_f (init doc)"] that
    by (auto simp: context_part_def)
  have pa: "\<not> dedup_match p a" if "p \<in> set ?P \<union> set ?C" "a \<in> set ?A" for p a
    using amount_part_facts(6)[OF amount_part_cases, of a "init doc" flag] that
    by auto
  from assms(1,2) have "f \<in> set ?P \<union> set ?C \<union> set ?A" "g \<in> set ?P \<union> set ?C \<union> set ?A"
    unfolding fresh_parts by blast+
  then consider "f \<in> set ?P" "g \<in> set ?C" | "f \<in> set ?C" "g \<in> set ?P"
    | "f \<in> set ?P \<union> set ?C" "g \<in> set ?A" | "f \<in> set ?A" "g \<in> set ?P \<union> set ?C"
    | "f \<in> set ?P" "g \<in> set ?P" | "f \<in> set ?C" "g \<in> set ?C" | "f \<in> set ?A" "g \<in> set ?A"
    by blast
  then have no: "\<not> dedup_match f g"
  proof cases
    case 1
    then show ?thesis by (rule pc)
  next
    case 2
    then show ?thesis using pc[of g f] by (simp add: dedup_match_sym)
  next
    case 3
    then show ?thesis by (rule pa)
  next
    case 4
    then show ?thesis using pa[of g f] by (simp add: dedup_match_sym)
  next
    case 5
    with strategy[of f] strategy[of g] assms(3) show ?thesis by simp
  next
    case 6
    with strategy[of f] strategy[of g] assms(3) show ?thesis by simp
  next
    case 7
    with strategy[of f] strategy[of g] assms(3) show ?thesis by simp
  qed
  moreover have "to_double (value_f f) \<noteq> to_double (value_f g)"
    if "finite_double (value_f f)" "line_number f = line_number g"
  proof
    assume "to_double (value_f f) = to_double (value_f g)"
    with that within_tolerance_same_double[of "value_f f" "value_f g"] have "dedup_match f g"
      by (simp add: dedup_match_def)
    with no show False by simp
  qed
  ultimately show ?thesis by blast
qed

theorem no_duplicates_across_strategies_witness:
  "result_fields (parse (init sample_line) False []) ! 0
     \<in> set (result_fields (parse (init sample_line) False []))
   \<and> result_fields (parse (init sample_line) False []) ! 1
     \<in> set (result_fields (parse (init sample_line) False []))
   \<and> extraction_method (result_fields (parse (init sample_line) False []) ! 0)
       = Some (str ''pattern_matching'')
   \<and> extraction_method (result_fields (parse (init sample_line) False []) ! 1)
       = Some (str ''context_aware'')
   \<and> line_number (result_fields (parse (init sample_line) False []) ! 0) = Some 1
   \<and> line_number (result_fields (parse (init sample_line) False []) ! 1) = Some 1
   \<and> finite_double (value_f (result_fields (parse (init sample_line) False []) ! 0))
   \<and> value_f (result_fields (parse (init sample_line) False []) ! 0) = 5
   \<and> value_f (result_fields (parse (init sample_line) False []) ! 1) = 7
   \<and> \<not> dedup_match (result_fields (parse (init sample_line) False []) ! 0)
         (result_fields (parse (init sample_line) False []) ! 1)"
  using no_duplicates_across_strategies[where doc = sample_line and flag = False
      and now = "[]" and f = "result_fields (parse (init sample_line) False []) ! 0"
      and g = "result_fields (parse (init sample_line) False []) ! 1"]
  by (simp add: sample_line_result sample_line_pattern_part sample_line_context_part
        small_values_finite str_def)

text \<open>
  C2 as stated fails: on the sample document the first call leaves three fields and
  the second call four, not six.
\<close>

theorem second_parse_counterexample:
  "length (result_fields (parse_again (parse (init sample_document) False []) False []))
     \<noteq> 2 * length (result_fields (parse (init sample_document) False []))"
  by (simp add: length_second_call sample_result_no_amounts sample_pattern_part
        sample_context_part scanned_inf_def small_values_finite)

text \<open>
  C2, amended.  For every document and flag, a second call of \<open>parse\<close> on the parser the
  first call on a new parser leaves behind adds the pattern matcher's fields once more
  and, of the fields of the two line scanners, those whose value overflowed to \<open>inf\<close>,
  which the code's test never takes for already extracted; every other amount the
  scanners find is in the accumulated fields already.  So the number of accumulated
  fields after the second call is the number after the first call, plus the number of
  pattern matches, plus the number of scanner fields of value \<open>inf\<close>.
\<close>

theorem second_parse_adds_pattern_fields:
  "\<exists>r1 s1 r2 s2.
     parse (init doc) flag now = Inr (r1, s1) \<and> parse s1 flag now' = Inr (r2, s2)
     \<and> length (parsed_fields s2) =
         length (parsed_fields s1) + pattern_matches (metadata r1)
           + length (filter scanned_inf (parsed_fields s1))
     \<and> total_fields_extracted (metadata r2) =
         total_fields_extracted (metadata r1) + pattern_matches (metadata r1)
           + length (filter scanned_inf (parsed_fields s1))
     \<and> pattern_matches (metadata r2) = pattern_matches (metadata r1)
     \<and> context_matches (metadata r2) =
         length (filter (\<lambda>f. extraction_method f = Some (str ''context_aware'')
                            \<and> \<not> finite_double (value_f f)) (parsed_fields s1))"
proof -
  let ?s1 = "(init doc)\<lparr>parsed_fields := sort_key (\<lambda>x. - confidence x)
       (parsed_fields (init doc) @ pattern_part (init doc) @ context_part (init doc)
          @ amount_part (init doc) flag)\<rparr>"
  let ?s2 = "?s1\<lparr>parsed_fields := sort_key (\<lambda>x. - confidence x)
       (parsed_fields ?s1 @ pattern_part ?s1 @ context_part ?s1 @ amount_part ?s1 flag)\<rparr>"
  have 1: "parse (init doc) flag now =
      Inr (compile_results ?s1 (pattern_part (init doc)) (context_part (init doc)) now, ?s1)"
    by (rule parse_parts)
  have 2: "parse ?s1 flag now' =
      Inr (compile_results ?s2 (pattern_part ?s1) (context_part ?s1) now', ?s2)"
    by (rule parse_parts)
  note n = second_call_new_parser[of doc flag]
  have "length (parsed_fields ?s2) =
      length (parsed_fields ?s1) + length (pattern_part ?s1)
        + (length (context_part ?s1) + length (amount_part ?s1 flag))"
    by simp
  then have len: "length (parsed_fields ?s2) =
      length (parsed_fields ?s1) + length (pattern_part (init doc))
        + length (filter scanned_inf (parsed_fields ?s1))"
    by (simp only: n(1,2))
  show ?thesis
    apply (rule exI[of _ "compile_results ?s1 (pattern_part (init doc)) (context_part (init doc)) now"])
    apply (rule exI[of _ ?s1])
    apply (rule exI[of _ "compile_results ?s2 (pattern_part ?s1) (context_part ?s1) now'"])
    apply (rule exI[of _ ?s2])
    apply (intro conjI)
         apply (rule 1)
        apply (rule 2)
       apply (simp only: compile_results_def Metadata.simps ParseResult.simps len)
      apply (simp only: compile_results_def Metadata.simps ParseResult.simps len)
     apply (simp only: compile_results_def Metadata.simps ParseResult.simps n(1))
    apply (simp only: compile_results_def Metadata.simps ParseResult.simps n(3))
    done
qed

end
